theory Spec2Isabelle
  imports Complex_Main "HOL-Library.Sublist"
begin

section \<open>The GitHub Python repository scraper (scraper.py)\<close>

text \<open>
  A shallow embedding of \<^verbatim>\<open>src/scraper.py\<close>. The remote service, the clock and the
  scheduler are the environment: each is a parameter of the function that consults it.
  Python exceptions are values of the type \<open>exn\<close>; a function that can raise returns
  \<open>exn + 'a\<close>, with \<open>Inl\<close> the exception. Logging and console output are not modelled.
\<close>

subsection \<open>Exceptions and constants\<close>

text \<open>
  \<open>GitHubAPIError url attempts cause\<close> carries the three values interpolated into the
  message \<^verbatim>\<open>Failed to make request to {url} after {MAX_RETRIES} attempts: {e}\<close>.
  \<open>TypeError\<close> is what Python raises when \<^verbatim>\<open>None\<close> is unpacked or subscripted.
\<close>

datatype exn =
    GitHubAPIError string nat string
  | ValueError string
  | TypeError

definition MAX_RETRIES :: nat where
  "MAX_RETRIES = 3"

definition RETRY_DELAY :: nat where
  "RETRY_DELAY = 5"

subsection \<open>make_github_request\<close>

text \<open>
  One attempt is \<^verbatim>\<open>requests.get\<close> or \<^verbatim>\<open>requests.post\<close>, then
  \<^verbatim>\<open>raise_for_status()\<close> and \<^verbatim>\<open>json()\<close>: it yields the decoded payload or raises a
  \<^verbatim>\<open>RequestException\<close>. The remote is a function from the attempt index to that outcome.
  Any other \<^verbatim>\<open>method\<close> raises \<^verbatim>\<open>ValueError\<close> inside the \<^verbatim>\<open>try\<close>; the handler does not
  catch it, so it leaves the call at once and no request is issued.
\<close>

datatype 'a attempt_outcome = Success 'a | RequestException string

text \<open>
  What a call leaves behind: its result (\<open>Inr None\<close> is the \<^verbatim>\<open>return None\<close> after the
  loop), the number of HTTP requests it issued, and the arguments of its
  \<^verbatim>\<open>time.sleep\<close> calls in order.
\<close>

record 'a call =
  result :: "exn + 'a option"
  requests_made :: nat
  sleeps :: "nat list"

text \<open>
  The body of \<^verbatim>\<open>for attempt in range(MAX_RETRIES)\<close>, by recursion on the remaining
  range. \<open>sent\<close> counts the requests issued so far and \<open>slept\<close> collects the delays.
\<close>

fun attempt_loop ::
  "string \<Rightarrow> string \<Rightarrow> (nat \<Rightarrow> 'a attempt_outcome) \<Rightarrow> nat list \<Rightarrow> nat \<Rightarrow> nat list \<Rightarrow> 'a call"
where
  "attempt_loop url method remote [] sent slept =
     \<lparr>result = Inr None, requests_made = sent, sleeps = slept\<rparr>"
| "attempt_loop url method remote (attempt # rest) sent slept =
     (if method = ''GET'' \<or> method = ''POST'' then
        (case remote attempt of
           Success payload \<Rightarrow>
             \<lparr>result = Inr (Some payload), requests_made = sent + 1, sleeps = slept\<rparr>
         | RequestException e \<Rightarrow>
             if attempt = MAX_RETRIES - 1 then
               \<lparr>result = Inl (GitHubAPIError url MAX_RETRIES e),
                requests_made = sent + 1, sleeps = slept\<rparr>
             else
               (let wait_time = RETRY_DELAY * (2 ^ attempt)
                in attempt_loop url method remote rest (sent + 1) (slept @ [wait_time])))
      else
        \<lparr>result = Inl (ValueError method), requests_made = sent, sleeps = slept\<rparr>)"

definition make_github_request ::
  "string \<Rightarrow> string \<Rightarrow> (nat \<Rightarrow> 'a attempt_outcome) \<Rightarrow> 'a call"
where
  "make_github_request url method remote =
     attempt_loop url method remote [0..<MAX_RETRIES] 0 []"

text \<open>
  Every caller in the file uses the default method \<^verbatim>\<open>GET\<close>, for which the only exception that
  leaves a call is \<^verbatim>\<open>GitHubAPIError\<close>. The callers below therefore see a response of type
  \<open>api_error + 'a\<close>: the exception raised by the call, or the payload it returned.
\<close>

record api_error =
  err_url :: string
  err_attempts :: nat
  err_cause :: string

subsection \<open>get_rate_limit_status and the two rate-limit pauses\<close>

record quota =
  remaining :: int
  reset :: int

record rate_limit =
  core :: quota
  search :: quota

text \<open>
  The payload of \<^verbatim>\<open>/rate_limit\<close> is \<open>Some\<close> of the four numbers the function reads, or
  \<open>None\<close> when the payload is falsy or a key is missing (the \<^verbatim>\<open>KeyError\<close> is caught by
  \<^verbatim>\<open>except Exception\<close>). In each of these cases, and when the call raises, the function
  returns \<^verbatim>\<open>None\<close>.
\<close>

definition get_rate_limit_status :: "(api_error + rate_limit option) \<Rightarrow> rate_limit option" where
  "get_rate_limit_status response =
     (case response of
        Inl e \<Rightarrow> None
      | Inr None \<Rightarrow> None
      | Inr (Some data) \<Rightarrow> Some data)"

text \<open>
  \<^verbatim>\<open>datetime.fromtimestamp\<close> and \<^verbatim>\<open>datetime.now\<close> yield naive datetimes in the local time
  zone of the process, and the source subtracts these. An instant is its epoch time in
  seconds, a rational number. The zone is a function that gives its UTC offset in seconds
  at an instant; a naive local datetime is the number of seconds on the wall clock, the
  instant plus the offset there. \<^verbatim>\<open>datetime.now()\<close> is the local datetime of the current
  instant. The difference of two naive datetimes is the difference of their wall-clock
  readings, whatever the offsets were.
\<close>

definition fromtimestamp :: "(rat \<Rightarrow> rat) \<Rightarrow> rat \<Rightarrow> rat" where
  "fromtimestamp zone t = t + zone t"

text \<open>
  \<^verbatim>\<open>(reset_time - datetime.now()).total_seconds() + 1\<close>, then \<^verbatim>\<open>max(0, wait_time)\<close>, where
  \<^verbatim>\<open>reset_time = datetime.fromtimestamp(reset)\<close> and \<open>now\<close> is the current instant. The
  value of \<^verbatim>\<open>reset\<close> is one that \<^verbatim>\<open>fromtimestamp\<close> accepts, and the float rounding of
  \<^verbatim>\<open>total_seconds()\<close> is not modelled.
\<close>

definition wait_until_reset :: "(rat \<Rightarrow> rat) \<Rightarrow> int \<Rightarrow> rat \<Rightarrow> rat" where
  "wait_until_reset zone reset_epoch now =
     max 0 (fromtimestamp zone (of_int reset_epoch) - fromtimestamp zone now + 1)"

text \<open>
  The check at the head of each iteration of the search loop (lines 132 to 147): the
  pause it performs, if any.
\<close>

definition search_throttle :: "(rat \<Rightarrow> rat) \<Rightarrow> rate_limit option \<Rightarrow> rat \<Rightarrow> rat option" where
  "search_throttle zone status now =
     (case status of
        None \<Rightarrow> None
      | Some rl \<Rightarrow>
          if remaining (search rl) \<le> 1
          then Some (wait_until_reset zone (reset (search rl)) now)
          else None)"



subsection \<open>search_repositories\<close>

definition per_page :: nat where
  "per_page = 100"

text \<open>
  The search payload: \<open>items = None\<close> when the key \<^verbatim>\<open>items\<close> is absent. The environment
  of one search: the local time zone, and for the iteration that requests page \<open>p\<close>, the
  value of \<open>get_rate_limit_status\<close> there, the instant at which it reads the clock and the
  response to its page request.
\<close>

record 'r search_data =
  items :: "'r list option"

record 'r search_env =
  local_zone :: "rat \<Rightarrow> rat"
  rate_status :: "nat \<Rightarrow> rate_limit option"
  clock :: "nat \<Rightarrow> rat"
  fetch_page :: "nat \<Rightarrow> api_error + 'r search_data"

text \<open>The inner \<^verbatim>\<open>for item in data["items"]\<close> with its \<^verbatim>\<open>break\<close>.\<close>

fun append_items :: "int \<Rightarrow> 'r list \<Rightarrow> 'r list \<Rightarrow> 'r list" where
  "append_items max_repos repos [] = repos"
| "append_items max_repos repos (item # rest) =
     (let repos' = repos @ [item]
      in if int (length repos') \<ge> max_repos then repos'
         else append_items max_repos repos' rest)"

lemma append_items_length:
  "its \<noteq> [] \<Longrightarrow> length repos < length (append_items max_repos repos its)"
proof (induction its arbitrary: repos)
  case Nil
  then show ?case by simp
next
  case (Cons item rest)
  show ?case
  proof (cases rest)
    case Nil
    then show ?thesis by (simp add: Let_def)
  next
    case (Cons a list)
    then have "length (repos @ [item]) < length (append_items max_repos (repos @ [item]) rest)"
      using Cons.IH by blast
    then show ?thesis by (simp add: Let_def)
  qed
qed

text \<open>
  What the loop does to the outside, in order: a pause of the given number of seconds, or
  the request for a page of the search.
\<close>

datatype event = Pause rat | PageRequest nat

definition throttle_events :: "'r search_env \<Rightarrow> nat \<Rightarrow> event list" where
  "throttle_events env page =
     (case search_throttle (local_zone env) (rate_status env page) (clock env page) of
        Some wait_time \<Rightarrow> [Pause wait_time]
      | None \<Rightarrow> [])"

text \<open>
  The \<^verbatim>\<open>while len(repos) < max_repos\<close> loop. It returns the list \<^verbatim>\<open>repos\<close> at the exit of
  the loop and the events of the loop.
\<close>

function search_loop ::
  "'r search_env \<Rightarrow> int \<Rightarrow> 'r list \<Rightarrow> nat \<Rightarrow> event list \<Rightarrow> 'r list \<times> event list"
where
  "search_loop env max_repos repos page trace =
     (if int (length repos) < max_repos then
        (let trace' = trace @ throttle_events env page @ [PageRequest page]
         in case fetch_page env page of
              Inl e \<Rightarrow> (repos, trace')
            | Inr data \<Rightarrow>
                (case items data of
                   None \<Rightarrow> (repos, trace')
                 | Some its \<Rightarrow>
                     if its = [] then (repos, trace')
                     else
                       (let repos' = append_items max_repos repos its
                        in if length its < per_page then (repos', trace')
                           else search_loop env max_repos repos' (page + 1) trace')))
      else (repos, trace))"
  by pat_completeness auto
termination
  by (relation "measure (\<lambda>(env, max_repos, repos, page, trace). nat (max_repos - int (length repos)))")
    (auto dest: append_items_length)

declare search_loop.simps [simp del]

text \<open>Python's slice \<^verbatim>\<open>xs[:n]\<close>, also for a negative \<open>n\<close>.\<close>

definition slice_to :: "'a list \<Rightarrow> int \<Rightarrow> 'a list" where
  "slice_to xs n = (if n \<ge> 0 then take (nat n) xs else take (length xs - nat (- n)) xs)"

definition search_repositories :: "'r search_env \<Rightarrow> int \<Rightarrow> 'r list \<times> event list" where
  "search_repositories env max_repos =
     (case search_loop env max_repos [] 1 [] of
        (repos, trace) \<Rightarrow> (slice_to repos max_repos, trace))"

subsection \<open>get_file_content_and_stats\<close>

text \<open>
  The decoded text of a file is a list of Unicode code points. \<open>splitlines\<close> is
  \<^verbatim>\<open>str.splitlines()\<close>: a line ends at each line boundary, \<^verbatim>\<open>\r\n\<close> counts as one
  boundary, and a last line without a boundary is still a line.
\<close>

type_synonym unicode = "nat list"

definition is_line_boundary :: "nat \<Rightarrow> bool" where
  "is_line_boundary c \<longleftrightarrow> c \<in> set [0x0A, 0x0B, 0x0C, 0x0D, 0x1C, 0x1D, 0x1E, 0x85, 0x2028, 0x2029]"

fun split_from :: "unicode \<Rightarrow> unicode \<Rightarrow> unicode list" where
  "split_from line [] = (if line = [] then [] else [line])"
| "split_from line [c] = (if is_line_boundary c then [line] else [line @ [c]])"
| "split_from line (c # d # rest) =
     (if c = 0x0D \<and> d = 0x0A then line # split_from [] rest
      else if is_line_boundary c then line # split_from [] (d # rest)
      else split_from (line @ [c]) (d # rest))"

definition splitlines :: "unicode \<Rightarrow> unicode list" where
  "splitlines decoded_content = split_from [] decoded_content"

text \<open>
  \<^verbatim>\<open>re.match(r"^\s*#", line)\<close>: after the leading whitespace (\<^verbatim>\<open>\s\<close> on a \<^verbatim>\<open>str\<close> pattern:
  the code points for which \<^verbatim>\<open>str.isspace()\<close> holds) the line has a \<^verbatim>\<open>#\<close>.
\<close>

definition is_space :: "nat \<Rightarrow> bool" where
  "is_space c \<longleftrightarrow>
     (0x09 \<le> c \<and> c \<le> 0x0D) \<or> (0x1C \<le> c \<and> c \<le> 0x20) \<or> c = 0x85 \<or> c = 0xA0 \<or>
     c = 0x1680 \<or> (0x2000 \<le> c \<and> c \<le> 0x200A) \<or> c = 0x2028 \<or> c = 0x2029 \<or>
     c = 0x202F \<or> c = 0x205F \<or> c = 0x3000"

definition is_comment_line :: "unicode \<Rightarrow> bool" where
  "is_comment_line line =
     (case dropWhile is_space line of [] \<Rightarrow> False | c # rest \<Rightarrow> c = 0x23)"

text \<open>The locals \<^verbatim>\<open>comment_lines\<close>, \<^verbatim>\<open>code_lines\<close> and \<^verbatim>\<open>comment_ratio\<close> of the function.\<close>

definition comment_lines_of :: "unicode list \<Rightarrow> int" where
  "comment_lines_of lines = int (length (filter is_comment_line lines))"

definition code_lines_of :: "unicode list \<Rightarrow> int" where
  "code_lines_of lines = int (length lines) - comment_lines_of lines"

text \<open>
  The ratio is a Python float; it is modelled by the exact rational value of the
  expression, so the rounding of the division and of the product is not modelled.
\<close>

definition comment_ratio_of :: "unicode list \<Rightarrow> rat" where
  "comment_ratio_of lines =
     (if code_lines_of lines > 0
      then (of_int (comment_lines_of lines) / of_int (code_lines_of lines)) * 100
      else 0)"

text \<open>
  The payload of a contents request: \<open>content = None\<close> when the key \<^verbatim>\<open>content\<close> is absent,
  otherwise the text obtained by base64 and UTF-8 decoding.

  The function has no \<^verbatim>\<open>return\<close> on the path where the key is absent, so it returns
  \<^verbatim>\<open>None\<close> there: the result is an option, and \<open>None\<close> is that value.
\<close>

record file_data =
  content :: "unicode option"

definition get_file_content_and_stats ::
  "(api_error + file_data) \<Rightarrow> (unicode \<times> int \<times> rat) option"
where
  "get_file_content_and_stats response =
     (case response of
        Inl e \<Rightarrow> Some ([], 0, 0)
      | Inr file_data \<Rightarrow>
          (case content file_data of
             None \<Rightarrow> None
           | Some decoded_content \<Rightarrow>
               (let lines = splitlines decoded_content;
                    num_lines = int (length lines)
                in if num_lines = 0 then Some ([], 0, 0)
                   else Some (decoded_content, num_lines, comment_ratio_of lines))))"

subsection \<open>find_python_files\<close>

text \<open>
  The seven exclusion patterns use three constructs of Python's \<^verbatim>\<open>re\<close>: the anchor
  \<^verbatim>\<open>^\<close>, a literal character and \<^verbatim>\<open>.*\<close>. A pattern is a list of these atoms.
  \<open>match_here p at_start s\<close> says that \<open>p\<close> matches a prefix of \<open>s\<close>, where \<open>at_start\<close>
  tells whether \<open>s\<close> begins at the start of the subject; \<^verbatim>\<open>.\<close> matches any character but
  a newline. \<^verbatim>\<open>re.search\<close> tries every start position.
\<close>

datatype atom = Bol | Chr char | DotStar

fun match_here :: "atom list \<Rightarrow> bool \<Rightarrow> string \<Rightarrow> bool" where
  "match_here [] at_start s = True"
| "match_here (Bol # p) at_start s = (at_start \<and> match_here p at_start s)"
| "match_here (Chr c # p) at_start [] = False"
| "match_here (Chr c # p) at_start (d # s) = (c = d \<and> match_here p False s)"
| "match_here (DotStar # p) at_start [] = match_here p at_start []"
| "match_here (DotStar # p) at_start (d # s) =
     (match_here p at_start (d # s) \<or> (d \<noteq> CHR 0x0A \<and> match_here (DotStar # p) False s))"

fun search_from :: "atom list \<Rightarrow> bool \<Rightarrow> string \<Rightarrow> bool" where
  "search_from p at_start [] = match_here p at_start []"
| "search_from p at_start (d # s) = (match_here p at_start (d # s) \<or> search_from p False s)"

definition re_search :: "atom list \<Rightarrow> string \<Rightarrow> bool" where
  "re_search p s = search_from p True s"

definition lit :: "string \<Rightarrow> atom list" where
  "lit s = map Chr s"

definition exclude_patterns :: "atom list list" where
  "exclude_patterns =
     [Bol # lit ''env/'',
      Bol # lit ''venv/'',
      DotStar # lit ''/site-packages/'',
      DotStar # lit ''/dist-packages/'',
      Bol # lit ''tests/'',
      Bol # lit ''docs/'',
      Bol # lit ''.'']"

text \<open>
  An entry of the tree listing with the two keys the walk reads, and the test that decides
  whether the walk fetches the entry's content (lines 280 to 285).
\<close>

record tree_item =
  item_type :: string
  item_path :: string

definition excluded :: "string \<Rightarrow> bool" where
  "excluded path = list_ex (\<lambda>pattern. re_search pattern path) exclude_patterns"

definition survives_filter :: "tree_item \<Rightarrow> bool" where
  "survives_filter item \<longleftrightarrow>
     item_type item = ''blob'' \<and> suffix ''.py'' (item_path item) \<and> \<not> excluded (item_path item)"

text \<open>
  The responses the walk of one repository receives: to the metadata request, to the tree
  request for a branch and to the contents request for a path. The metadata payload is a
  dictionary with or without the key \<^verbatim>\<open>default_branch\<close>, or not a dictionary at all; the
  tree payload has \<open>tree = None\<close> when the key \<^verbatim>\<open>tree\<close> is absent.
\<close>

datatype repo_info = NotADict | RepoDict "string option"

record tree_data =
  tree :: "tree_item list option"

record repo_env =
  info_response :: "api_error + repo_info"
  tree_response :: "string \<Rightarrow> api_error + tree_data"
  contents_response :: "string \<Rightarrow> api_error + file_data"

type_synonym candidate = "string \<times> int \<times> rat"

text \<open>
  The loop over the tree (lines 279 to 295). Unpacking the \<^verbatim>\<open>None\<close> that
  \<open>get_file_content_and_stats\<close> returns raises \<^verbatim>\<open>TypeError\<close>, which the
  \<^verbatim>\<open>except GitHubAPIError\<close> around the loop does not catch.
\<close>

fun walk_tree ::
  "repo_env \<Rightarrow> int \<Rightarrow> int \<Rightarrow> rat \<Rightarrow> tree_item list \<Rightarrow> candidate list \<Rightarrow> exn + candidate list"
where
  "walk_tree env min_lines max_lines quality_threshold [] results = Inr results"
| "walk_tree env min_lines max_lines quality_threshold (item # rest) results =
     (if survives_filter item then
        (case get_file_content_and_stats (contents_response env (item_path item)) of
           None \<Rightarrow> Inl TypeError
         | Some (decoded, num_lines, comment_ratio) \<Rightarrow>
             if min_lines \<le> num_lines \<and> num_lines \<le> max_lines
                \<and> comment_ratio \<ge> quality_threshold
             then walk_tree env min_lines max_lines quality_threshold rest
                    (results @ [(item_path item, num_lines, comment_ratio)])
             else walk_tree env min_lines max_lines quality_threshold rest results)
      else walk_tree env min_lines max_lines quality_threshold rest results)"

definition find_python_files ::
  "repo_env \<Rightarrow> int \<Rightarrow> int \<Rightarrow> rat \<Rightarrow> exn + candidate list"
where
  "find_python_files env min_lines max_lines quality_threshold =
     (case info_response env of
        Inl e \<Rightarrow> Inr []
      | Inr NotADict \<Rightarrow> Inr []
      | Inr (RepoDict None) \<Rightarrow> Inr []
      | Inr (RepoDict (Some default_branch)) \<Rightarrow>
          (case tree_response env default_branch of
             Inl e \<Rightarrow> Inr []
           | Inr tree_data \<Rightarrow>
               (case tree tree_data of
                  None \<Rightarrow> Inr []
                | Some entries \<Rightarrow>
                    walk_tree env min_lines max_lines quality_threshold entries [])))"

subsection \<open>process_repository and the worker pool of main\<close>

type_synonym key = "string \<times> string"

record result_record =
  repo_url :: string
  python_file :: string
  num_lines :: int
  comment_ratio :: rat

definition record_key :: "result_record \<Rightarrow> key" where
  "record_key r = (repo_url r, python_file r)"

text \<open>
  A task of the pool runs \<open>process_repository\<close> for one repository. Its walk touches no
  shared state, so a task starts from the value of \<open>find_python_files\<close>: an exception
  there leaves \<open>process_repository\<close> and is raised again by \<^verbatim>\<open>future.result()\<close> in
  \<^verbatim>\<open>main\<close>, which logs it and merges nothing for that task.

  The loop over \<^verbatim>\<open>python_files\<close> has two steps for each candidate. At \<open>AtLoop\<close> the task tests
  the key against its copy of the pre-existing data, outside the lock; at \<open>AtLock\<close> it
  holds \<^verbatim>\<open>processed_files_lock\<close> and runs the whole \<^verbatim>\<open>with\<close> block as one step. Other
  tasks may run between the two steps.
\<close>

datatype pc = AtLoop | AtLock | Returned | Raised

record worker =
  task_url :: string
  python_files :: "candidate list"
  loc :: pc
  results :: "result_record list"
  skipped_count :: nat

record repository =
  full_name :: string
  html_url :: string

definition start_task :: "repository \<Rightarrow> (exn + candidate list) \<Rightarrow> worker" where
  "start_task repo walk =
     (case walk of
        Inl e \<Rightarrow>
          \<lparr>task_url = html_url repo, python_files = [], loc = Raised,
           results = [], skipped_count = 0\<rparr>
      | Inr files \<Rightarrow>
          \<lparr>task_url = html_url repo, python_files = files, loc = AtLoop,
           results = [], skipped_count = 0\<rparr>)"

text \<open>
  The state of a run: the tasks, the shared set \<^verbatim>\<open>processed_files\<close>, and the two
  accumulators of \<^verbatim>\<open>main\<close>, which receive a task's return value when the task completes.
\<close>

record run_state =
  workers :: "worker list"
  processed_files :: "key set"
  all_results :: "result_record list"
  total_skipped :: nat

definition step :: "key set \<Rightarrow> nat \<Rightarrow> run_state \<Rightarrow> run_state" where
  "step initial_existing_data i s =
     (if i < length (workers s) then
        (let w = workers s ! i in
         case loc w of
           AtLoop \<Rightarrow>
             (case python_files w of
                [] \<Rightarrow>
                  s\<lparr>workers := (workers s)[i := w\<lparr>loc := Returned\<rparr>],
                    all_results := all_results s @ results w,
                    total_skipped := total_skipped s + skipped_count w\<rparr>
              | (file_path, n, ratio) # rest \<Rightarrow>
                  if (task_url w, file_path) \<notin> initial_existing_data
                  then s\<lparr>workers := (workers s)[i := w\<lparr>loc := AtLock\<rparr>]\<rparr>
                  else s\<lparr>workers := (workers s)
                           [i := w\<lparr>python_files := rest,
                                   skipped_count := skipped_count w + 1\<rparr>]\<rparr>)
         | AtLock \<Rightarrow>
             (case python_files w of
                [] \<Rightarrow> s
              | (file_path, n, ratio) # rest \<Rightarrow>
                  if (task_url w, file_path) \<notin> processed_files s
                  then s\<lparr>workers := (workers s)
                           [i := w\<lparr>python_files := rest, loc := AtLoop,
                                   results := results w @
                                     [\<lparr>repo_url = task_url w, python_file = file_path,
                                       num_lines = n, comment_ratio = ratio\<rparr>]\<rparr>],
                         processed_files := insert (task_url w, file_path) (processed_files s)\<rparr>
                  else s\<lparr>workers := (workers s)
                           [i := w\<lparr>python_files := rest, loc := AtLoop\<rparr>]\<rparr>)
         | Returned \<Rightarrow> s
         | Raised \<Rightarrow> s)
      else s)"

text \<open>
  A schedule is the order in which the tasks take their steps; every interleaving of the
  tasks is a schedule. A run starts with an empty \<^verbatim>\<open>processed_files\<close> and empty
  accumulators.
\<close>

definition run :: "key set \<Rightarrow> nat list \<Rightarrow> run_state \<Rightarrow> run_state" where
  "run initial_existing_data schedule s = foldl (\<lambda>s i. step initial_existing_data i s) s schedule"

definition start_run :: "(repository \<times> (exn + candidate list)) list \<Rightarrow> run_state" where
  "start_run tasks =
     \<lparr>workers = map (\<lambda>(repo, walk). start_task repo walk) tasks,
      processed_files = {},
      all_results = [],
      total_skipped = 0\<rparr>"



text \<open>Every record a task has produced so far, merged by \<^verbatim>\<open>main\<close> or not.\<close>

definition emitted :: "run_state \<Rightarrow> result_record list" where
  "emitted s = concat (map results (workers s))"

subsection \<open>Notions used in the properties\<close>

text \<open>An attempt fails when it raises a \<^verbatim>\<open>RequestException\<close>.\<close>

definition failed_attempt :: "'a attempt_outcome \<Rightarrow> bool" where
  "failed_attempt r = (case r of RequestException e \<Rightarrow> True | Success p \<Rightarrow> False)"

text \<open>
  A remote that holds the list \<open>available\<close> of matching repositories serves it in pages
  of \<open>per_page\<close> items: \<open>page_of available p\<close> is page \<open>p\<close>, counted from 1. A response
  with \<open>no_items\<close> is one on which the search loop breaks without appending.
\<close>

definition page_of :: "'r list \<Rightarrow> nat \<Rightarrow> 'r list" where
  "page_of available page = take per_page (drop ((page - 1) * per_page) available)"

definition no_items :: "(api_error + 'r search_data) \<Rightarrow> bool" where
  "no_items response =
     (case response of Inl e \<Rightarrow> True | Inr data \<Rightarrow> items data = None \<or> items data = Some [])"

text \<open>
  The segments of a path are the pieces between its slashes; \<open>join\<close> puts them together
  again. The exclusion as the specification words it: a path rooted at one of four
  directories, a path with a directory segment \<^verbatim>\<open>site-packages\<close> or \<^verbatim>\<open>dist-packages\<close>
  anywhere, or a path that begins with a dot.
\<close>

fun segments :: "string \<Rightarrow> string list" where
  "segments [] = [[]]"
| "segments (c # cs) =
     (if c = CHR ''/'' then [] # segments cs
      else (case segments cs of [] \<Rightarrow> [[c]] | seg # rest \<Rightarrow> (c # seg) # rest))"

definition has_directory :: "string \<Rightarrow> string \<Rightarrow> bool" where
  "has_directory name path \<longleftrightarrow> name \<in> set (butlast (segments path))"

definition spec_excluded :: "string \<Rightarrow> bool" where
  "spec_excluded path \<longleftrightarrow>
     prefix ''env/'' path \<or> prefix ''venv/'' path \<or> prefix ''tests/'' path \<or>
     prefix ''docs/'' path \<or> has_directory ''site-packages'' path \<or>
     has_directory ''dist-packages'' path \<or> prefix ''.'' path"

fun join :: "string list \<Rightarrow> string" where
  "join [] = []"
| "join [x] = x"
| "join (x # y # r) = x @ CHR ''/'' # join (y # r)"

text \<open>
  Notions for reasoning about a run. The key of a candidate of a task; the keys a task
  has still to decide that are not in the pre-existing data, and the number of its
  remaining candidates that are; the invariant of a task and of a run.
\<close>

definition candidate_key :: "worker \<Rightarrow> candidate \<Rightarrow> key" where
  "candidate_key w c = (task_url w, fst c)"



definition returned :: "worker \<Rightarrow> bool" where
  "returned w \<longleftrightarrow> loc w = Returned"

definition worker_ok :: "key set \<Rightarrow> worker \<Rightarrow> bool" where
  "worker_ok existing w \<longleftrightarrow>
     (\<forall>r \<in> set (results w). repo_url r = task_url w \<and> record_key r \<notin> existing) \<and>
     (loc w = AtLock \<longrightarrow>
        (\<exists>c rest. python_files w = c # rest \<and> candidate_key w c \<notin> existing)) \<and>
     (loc w = Returned \<longrightarrow> python_files w = []) \<and>
     (loc w = Raised \<longrightarrow> python_files w = [] \<and> results w = [] \<and> skipped_count w = 0)"

definition run_inv :: "key set \<Rightarrow> run_state \<Rightarrow> bool" where
  "run_inv existing s \<longleftrightarrow>
     list_all (worker_ok existing) (workers s) \<and>
     distinct (map record_key (emitted s)) \<and>
     processed_files s = set (map record_key (emitted s)) \<and>
     set (all_results s) = set (concat (map results (filter returned (workers s)))) \<and>
     distinct (map record_key (all_results s)) \<and>
     total_skipped s = sum_list (map skipped_count (filter returned (workers s)))"

text \<open>
  The keys of all candidates of a run, task by task (a task whose walk raised has none),
  and two quantities that no step changes: the skips counted and still to count, and the
  keys emitted and still to decide.
\<close>

definition task_keys :: "repository \<times> (exn + candidate list) \<Rightarrow> key list" where
  "task_keys task =
     (case task of
        (repo, Inl e) \<Rightarrow> []
      | (repo, Inr files) \<Rightarrow> map (\<lambda>c. (html_url repo, fst c)) files)"

definition candidate_keys :: "(repository \<times> (exn + candidate list)) list \<Rightarrow> key list" where
  "candidate_keys tasks = concat (map task_keys tasks)"



text \<open>
  An example: the search returned the same repository twice, so two tasks walk the same
  file.
\<close>

definition twin_tasks :: "(repository \<times> (exn + candidate list)) list" where
  "twin_tasks =
     [(\<lparr>full_name = ''o/r'', html_url = ''https://github.com/o/r''\<rparr>, Inr [(''f.py'', 1, 0)]),
      (\<lparr>full_name = ''o/r'', html_url = ''https://github.com/o/r''\<rparr>, Inr [(''f.py'', 1, 0)])]"

section \<open>Properties\<close>

subsection \<open>The request executor\<close>

lemma upt_3: "[0..<3] = [0, 1, 2]"
  by (simp add: upt_rec)

text \<open>The three iterations of the loop, written out.\<close>

lemma make_github_request_unfold:
  "make_github_request url method remote =
     (if method = ''GET'' \<or> method = ''POST'' then
        (case remote 0 of
           Success p \<Rightarrow> \<lparr>result = Inr (Some p), requests_made = 1, sleeps = []\<rparr>
         | RequestException e0 \<Rightarrow>
             (case remote 1 of
                Success p \<Rightarrow> \<lparr>result = Inr (Some p), requests_made = 2, sleeps = [5]\<rparr>
              | RequestException e1 \<Rightarrow>
                  (case remote 2 of
                     Success p \<Rightarrow> \<lparr>result = Inr (Some p), requests_made = 3, sleeps = [5, 10]\<rparr>
                   | RequestException e2 \<Rightarrow>
                       \<lparr>result = Inl (GitHubAPIError url 3 e2), requests_made = 3,
                        sleeps = [5, 10]\<rparr>)))
      else \<lparr>result = Inl (ValueError method), requests_made = 0, sleeps = []\<rparr>)"
  by (simp add: make_github_request_def MAX_RETRIES_def RETRY_DELAY_def upt_3
      split: attempt_outcome.split)

text \<open>
  With the method \<^verbatim>\<open>GET\<close>, the only one the callers use, a call raises nothing but
  \<^verbatim>\<open>GitHubAPIError\<close> and never returns \<^verbatim>\<open>None\<close>.
\<close>

lemma make_github_request_get:
  "(\<exists>payload. result (make_github_request url ''GET'' remote) = Inr (Some payload)) \<or>
   (\<exists>e. result (make_github_request url ''GET'' remote) = Inl (GitHubAPIError url 3 e))"
  by (simp add: make_github_request_unfold split: attempt_outcome.split)

text \<open>
  Claim C4. A call of the request executor issues at most 3 requests. If the attempts
  before attempt \<open>k\<close> (counted from 0, \<open>k < 3\<close>) fail and attempt \<open>k\<close> succeeds, the call
  returns the payload of attempt \<open>k\<close> after \<open>k + 1\<close> requests. If all 3 attempts fail, the
  call raises \<open>GitHubAPIError\<close> with attempt count 3 and the cause of the last failure.
\<close>

theorem request_executor_bounded_retry:
  "requests_made (make_github_request url method remote) \<le> 3 \<and>
   (method = ''GET'' \<or> method = ''POST'' \<longrightarrow>
     (\<forall>k payload. k < MAX_RETRIES \<and> (\<forall>j<k. failed_attempt (remote j)) \<and> remote k = Success payload
        \<longrightarrow> result (make_github_request url method remote) = Inr (Some payload)
            \<and> requests_made (make_github_request url method remote) = k + 1) \<and>
     ((\<forall>j<MAX_RETRIES. failed_attempt (remote j))
        \<longrightarrow> (\<exists>e. remote 2 = RequestException e
               \<and> result (make_github_request url method remote) = Inl (GitHubAPIError url 3 e))
            \<and> requests_made (make_github_request url method remote) = 3))"
proof -
  let ?c = "make_github_request url method remote"
  have bound: "requests_made ?c \<le> 3"
    by (simp add: make_github_request_unfold split: attempt_outcome.split)
  have success: "result ?c = Inr (Some payload) \<and> requests_made ?c = k + 1"
    if m: "method = ''GET'' \<or> method = ''POST''" and k: "k < MAX_RETRIES"
      and before: "\<forall>j<k. failed_attempt (remote j)" and here: "remote k = Success payload"
    for k payload
  proof -
    from k have "k = 0 \<or> k = 1 \<or> k = 2" by (auto simp: MAX_RETRIES_def)
    then show ?thesis
    proof (elim disjE)
      assume "k = 0"
      with m here show ?thesis by (simp add: make_github_request_unfold)
    next
      assume k1: "k = 1"
      with before have "failed_attempt (remote 0)" by simp
      with m here k1 show ?thesis
        by (simp add: make_github_request_unfold failed_attempt_def split: attempt_outcome.splits)
    next
      assume k2: "k = 2"
      with before have "failed_attempt (remote 0)" "failed_attempt (remote 1)" by simp_all
      with m here k2 show ?thesis
        by (simp add: make_github_request_unfold failed_attempt_def split: attempt_outcome.splits)
    qed
  qed
  have exhausted: "(\<exists>e. remote 2 = RequestException e \<and> result ?c = Inl (GitHubAPIError url 3 e))
      \<and> requests_made ?c = 3"
    if m: "method = ''GET'' \<or> method = ''POST''" and all: "\<forall>j<MAX_RETRIES. failed_attempt (remote j)"
  proof -
    from all have "failed_attempt (remote 0)" "failed_attempt (remote 1)" "failed_attempt (remote 2)"
      by (simp_all add: MAX_RETRIES_def)
    with m show ?thesis
      by (simp add: make_github_request_unfold failed_attempt_def split: attempt_outcome.splits)
  qed
  from bound success exhausted show ?thesis by blast
qed

theorem request_executor_bounded_retry_witness:
  "result (make_github_request ''u'' ''GET''
      (\<lambda>n. if n < 2 then RequestException ''timeout'' else Success (7::nat))) = Inr (Some 7)
   \<and> requests_made (make_github_request ''u'' ''GET''
      (\<lambda>n. if n < 2 then RequestException ''timeout'' else Success (7::nat))) = 3
   \<and> result (make_github_request ''u'' ''GET''
      (\<lambda>n. RequestException ''timeout'' :: nat attempt_outcome)) = Inl (GitHubAPIError ''u'' 3 ''timeout'')"
proof -
  let ?late = "\<lambda>n::nat. if n < 2 then RequestException ''timeout'' else Success (7::nat)"
  let ?never = "\<lambda>n::nat. RequestException ''timeout'' :: nat attempt_outcome"
  have late: "(2::nat) < MAX_RETRIES \<and> (\<forall>j<2. failed_attempt (?late j)) \<and> ?late 2 = Success 7"
    by (simp add: MAX_RETRIES_def failed_attempt_def)
  have never: "\<forall>j<MAX_RETRIES. failed_attempt (?never j)"
    by (simp add: failed_attempt_def)
  from request_executor_bounded_retry [of "''u''" "''GET''" ?late] late
  have "result (make_github_request ''u'' ''GET'' ?late) = Inr (Some 7)
      \<and> requests_made (make_github_request ''u'' ''GET'' ?late) = 2 + 1"
    by blast
  moreover from request_executor_bounded_retry [of "''u''" "''GET''" ?never] never
  have "result (make_github_request ''u'' ''GET'' ?never) = Inl (GitHubAPIError ''u'' 3 ''timeout'')"
    by auto
  ultimately show ?thesis by simp
qed

text \<open>
  Claim C5. The delays a call sleeps are, in order, \<open>5 * 2 ^ (k - 1)\<close> seconds for the retries
  \<open>k = 1, 2, ...\<close> up to the number of requests less one: one delay before each retry and
  none after the last request. When all 3 attempts fail the delays are 5 and 10.
\<close>

theorem backoff_delays:
  "sleeps (make_github_request url method remote) =
     map (\<lambda>k. 5 * 2 ^ (k - 1)) [1..<requests_made (make_github_request url method remote)]
   \<and> ((method = ''GET'' \<or> method = ''POST'') \<and> (\<forall>j<MAX_RETRIES. failed_attempt (remote j))
        \<longrightarrow> sleeps (make_github_request url method remote) = [5, 10])"
proof -
  have upts: "[Suc 0..<2] = [Suc 0]" "[Suc 0..<3] = [Suc 0, 2]"
    by (simp_all add: upt_rec)
  let ?c = "make_github_request url method remote"
  have shape: "sleeps ?c = map (\<lambda>k. 5 * 2 ^ (k - 1)) [1..<requests_made ?c]"
    by (simp add: make_github_request_unfold upts split: attempt_outcome.split)
  have exhausted: "sleeps ?c = [5, 10]"
    if m: "method = ''GET'' \<or> method = ''POST''" and all: "\<forall>j<MAX_RETRIES. failed_attempt (remote j)"
  proof -
    from all have "failed_attempt (remote 0)" "failed_attempt (remote 1)" "failed_attempt (remote 2)"
      by (simp_all add: MAX_RETRIES_def)
    with m show ?thesis
      by (simp add: make_github_request_unfold failed_attempt_def split: attempt_outcome.splits)
  qed
  from shape exhausted show ?thesis by blast
qed

theorem backoff_delays_witness:
  "sleeps (make_github_request ''u'' ''GET''
      (\<lambda>n. RequestException ''timeout'' :: nat attempt_outcome)) = [5, 10]
   \<and> requests_made (make_github_request ''u'' ''GET''
      (\<lambda>n. RequestException ''timeout'' :: nat attempt_outcome)) = 3"
  using backoff_delays [of "''u''" "''GET''" "\<lambda>n. RequestException ''timeout'' :: nat attempt_outcome"]
  by (simp add: MAX_RETRIES_def failed_attempt_def make_github_request_unfold)

subsection \<open>The file statistics\<close>

lemma comment_lines_bounds:
  "0 \<le> comment_lines_of lines \<and> comment_lines_of lines \<le> int (length lines)"
  by (simp add: comment_lines_of_def)

lemma code_lines_nonneg: "0 \<le> code_lines_of lines"
  by (simp add: code_lines_of_def comment_lines_of_def)

lemma comment_ratio_nonneg: "0 \<le> comment_ratio_of lines"
  by (simp add: comment_ratio_of_def comment_lines_bounds)

lemma stats_with_content:
  "\<exists>c. get_file_content_and_stats (Inr \<lparr>content = Some decoded\<rparr>) =
        Some (c, int (length (splitlines decoded)), comment_ratio_of (splitlines decoded))"
  by (simp add: get_file_content_and_stats_def Let_def comment_ratio_of_def code_lines_of_def
      comment_lines_of_def)

text \<open>
  Claim C7. For a contents response with decoded text, the function returns the number
  of lines of the text and its comment ratio. The number of lines is the sum of the comment
  lines and the code lines, none of the three is negative, the ratio is never negative, it
  is comment lines / code lines * 100 when there is a code line and 0 when there is none,
  and the empty file gives 0 lines and ratio 0. The ratio is the exact quotient: float
  rounding is outside the model.
\<close>

theorem file_stats:
  "(\<exists>c. get_file_content_and_stats (Inr \<lparr>content = Some decoded\<rparr>) =
        Some (c, int (length (splitlines decoded)), comment_ratio_of (splitlines decoded))) \<and>
   int (length (splitlines decoded)) =
     comment_lines_of (splitlines decoded) + code_lines_of (splitlines decoded) \<and>
   0 \<le> comment_lines_of (splitlines decoded) \<and>
   0 \<le> code_lines_of (splitlines decoded) \<and>
   0 \<le> comment_ratio_of (splitlines decoded) \<and>
   (0 < code_lines_of (splitlines decoded) \<longrightarrow>
      comment_ratio_of (splitlines decoded) =
        of_int (comment_lines_of (splitlines decoded)) / of_int (code_lines_of (splitlines decoded)) * 100) \<and>
   (code_lines_of (splitlines decoded) = 0 \<longrightarrow> comment_ratio_of (splitlines decoded) = 0) \<and>
   get_file_content_and_stats (Inr \<lparr>content = Some []\<rparr>) = Some ([], 0, 0)"
proof -
  have empty: "get_file_content_and_stats (Inr \<lparr>content = Some []\<rparr>) = Some ([], 0, 0)"
    by (simp add: get_file_content_and_stats_def splitlines_def)
  have total: "int (length (splitlines decoded)) =
      comment_lines_of (splitlines decoded) + code_lines_of (splitlines decoded)"
    by (simp add: code_lines_of_def)
  have ratio: "0 < code_lines_of (splitlines decoded) \<longrightarrow>
      comment_ratio_of (splitlines decoded) =
        of_int (comment_lines_of (splitlines decoded)) / of_int (code_lines_of (splitlines decoded)) * 100"
    by (simp add: comment_ratio_of_def)
  have zero: "code_lines_of (splitlines decoded) = 0 \<longrightarrow> comment_ratio_of (splitlines decoded) = 0"
    by (simp add: comment_ratio_of_def)
  from stats_with_content [of decoded] empty total ratio zero comment_lines_bounds
    code_lines_nonneg comment_ratio_nonneg
  show ?thesis by blast
qed

lemma splitlines_example:
  "splitlines [0x23, 0x20, 0x61, 0x0A, 0x62, 0x0D, 0x0A, 0x20, 0x23, 0x0A, 0x63] =
     [[0x23, 0x20, 0x61], [0x62], [0x20, 0x23], [0x63]]"
  by (simp add: splitlines_def is_line_boundary_def)

theorem file_stats_witness:
  "get_file_content_and_stats
     (Inr \<lparr>content = Some [0x23, 0x20, 0x61, 0x0A, 0x62, 0x0D, 0x0A, 0x20, 0x23, 0x0A, 0x63]\<rparr>) =
     Some ([0x23, 0x20, 0x61, 0x0A, 0x62, 0x0D, 0x0A, 0x20, 0x23, 0x0A, 0x63], 4, 100)
   \<and> code_lines_of (splitlines [0x23, 0x20, 0x61, 0x0A, 0x62, 0x0D, 0x0A, 0x20, 0x23, 0x0A, 0x63]) = 2
   \<and> code_lines_of (splitlines [0x23]) = 0 \<and> comment_ratio_of (splitlines [0x23]) = 0"
proof -
  let ?d = "[0x23, 0x20, 0x61, 0x0A, 0x62, 0x0D, 0x0A, 0x20, 0x23, 0x0A, 0x63] :: unicode"
  have c: "comment_lines_of (splitlines ?d) = 2"
    by (simp add: splitlines_example comment_lines_of_def is_comment_line_def is_space_def)
  have k: "code_lines_of (splitlines ?d) = 2"
    by (simp add: code_lines_of_def c) (simp add: splitlines_example)
  have one: "splitlines [0x23] = [[0x23]]"
    by (simp add: splitlines_def is_line_boundary_def)
  have k1: "code_lines_of (splitlines [0x23]) = 0"
    by (simp add: one code_lines_of_def comment_lines_of_def is_comment_line_def is_space_def)
  from file_stats [of ?d] c k have "comment_ratio_of (splitlines ?d) = 100"
    by simp
  moreover have "get_file_content_and_stats (Inr \<lparr>content = Some ?d\<rparr>) =
      Some (?d, int (length (splitlines ?d)), comment_ratio_of (splitlines ?d))"
    by (simp add: get_file_content_and_stats_def Let_def splitlines_example)
  moreover from file_stats [of "[0x23]"] k1 have "comment_ratio_of (splitlines [0x23]) = 0"
    by blast
  ultimately show ?thesis using k k1 by (simp add: splitlines_example)
qed

subsection \<open>The rate-limit pauses\<close>










subsection \<open>The repository search\<close>

lemma append_items_take:
  "length repos < m \<Longrightarrow> append_items (int m) repos its = repos @ take (m - length repos) its"
proof (induction its arbitrary: repos)
  case Nil
  then show ?case by simp
next
  case (Cons item rest)
  show ?case
  proof (cases "Suc (length repos) < m")
    case True
    then have "append_items (int m) (repos @ [item]) rest
        = (repos @ [item]) @ take (m - length (repos @ [item])) rest"
      using Cons.IH [of "repos @ [item]"] by simp
    moreover from True have "take (m - length repos) (item # rest)
        = item # take (m - Suc (length repos)) rest"
      by (simp add: take_Cons')
    ultimately show ?thesis using True by (simp add: Let_def)
  next
    case False
    with Cons.prems have "m - length repos = Suc 0" by simp
    with False show ?thesis by (simp add: Let_def)
  qed
qed

lemma search_loop_exit:
  "\<not> int (length repos) < max_repos \<Longrightarrow> search_loop env max_repos repos page trace = (repos, trace)"
  by (subst search_loop.simps) simp

lemma search_loop_no_items:
  "int (length repos) < max_repos \<Longrightarrow> no_items (fetch_page env page) \<Longrightarrow>
   fst (search_loop env max_repos repos page trace) = repos"
  by (subst search_loop.simps) (auto simp: no_items_def Let_def split: sum.splits option.splits)

lemma search_loop_last:
  "int (length repos) < max_repos \<Longrightarrow> fetch_page env page = Inr data \<Longrightarrow> items data = Some its
    \<Longrightarrow> its \<noteq> [] \<Longrightarrow> length its < per_page \<Longrightarrow>
   fst (search_loop env max_repos repos page trace) = append_items max_repos repos its"
  by (subst search_loop.simps) (simp add: Let_def)

lemma search_loop_continue':
  "int (length repos) < max_repos \<Longrightarrow> fetch_page env page = Inr data \<Longrightarrow> items data = Some its
    \<Longrightarrow> its \<noteq> [] \<Longrightarrow> \<not> length its < per_page \<Longrightarrow>
   search_loop env max_repos repos page trace =
     search_loop env max_repos (append_items max_repos repos its) (page + 1)
       (trace @ throttle_events env page @ [PageRequest page])"
  by (subst search_loop.simps) (simp add: Let_def)

lemma search_loop_bounded:
  "int (length repos) \<le> max_repos \<Longrightarrow>
   int (length (fst (search_loop env max_repos repos page trace))) \<le> max_repos"
proof (induction env max_repos repos page trace rule: search_loop.induct)
  case (1 env max_repos repos page trace)
  show ?case
  proof (cases "int (length repos) < max_repos")
    case False
    with "1.prems" show ?thesis by (simp add: search_loop_exit)
  next
    case enter: True
    define m where "m = nat max_repos"
    from enter have m: "max_repos = int m" "length repos < m"
      by (simp_all add: m_def)
    show ?thesis
    proof (cases "no_items (fetch_page env page)")
      case True
      with enter "1.prems" show ?thesis by (simp add: search_loop_no_items)
    next
      case False
      then obtain data its where d: "fetch_page env page = Inr data" "items data = Some its" "its \<noteq> []"
        by (auto simp: no_items_def split: sum.splits)
      have len: "int (length (append_items max_repos repos its)) \<le> max_repos"
        using m by (simp add: append_items_take)
      show ?thesis
      proof (cases "length its < per_page")
        case True
        with enter d len show ?thesis by (simp add: search_loop_last)
      next
        case False
        from "1.IH" [OF enter refl d(1) d(2) d(3) refl False len]
        show ?thesis by (simp add: search_loop_continue' [OF enter d False])
      qed
    qed
  qed
qed


lemma search_loop_served:
  fixes A :: "'r list" and env :: "'r search_env"
  assumes served: "\<And>p. 1 \<le> p \<Longrightarrow> (p - 1) * per_page \<le> length A \<Longrightarrow> page_of A p \<noteq> [] \<Longrightarrow>
        fetch_page env p = Inr \<lparr>items = Some (page_of A p)\<rparr>"
    and stop: "\<And>p. 1 \<le> p \<Longrightarrow> (p - 1) * per_page \<le> length A \<Longrightarrow> page_of A p = [] \<Longrightarrow>
        no_items (fetch_page env p)"
  shows "1 \<le> page \<Longrightarrow> length repos \<le> length A \<Longrightarrow> repos = take (length repos) A \<Longrightarrow>
     length repos \<le> nat max_repos \<Longrightarrow>
     (length repos < nat max_repos \<longrightarrow> length repos = (page - 1) * per_page) \<Longrightarrow>
     fst (search_loop env max_repos repos page trace) = take (nat max_repos) A"
proof (induction "nat max_repos - length repos" arbitrary: repos page trace rule: less_induct)
  case less
  define m where "m = nat max_repos"
  define n where "n = length repos"
  note page = less.prems(1) and nA = less.prems(2)
    and nm = less.prems(4) and at = less.prems(5)
  have pre: "take n A = repos"
    unfolding n_def by (rule less.prems(3) [symmetric])
  show ?case
  proof (cases "int (length repos) < max_repos")
    case False
    then have "m \<le> n" by (simp add: m_def n_def)
    with nm have "n = m" by (simp add: m_def n_def)
    with pre have "repos = take m A" by simp
    with False show ?thesis by (simp add: search_loop_exit m_def)
  next
    case enter: True
    then have lt: "n < m" and mx: "max_repos = int m"
      by (simp_all add: m_def n_def)
    from at lt have n: "n = (page - 1) * per_page" by (simp add: m_def n_def)
    have its: "page_of A page = take per_page (drop n A)"
      by (simp add: page_of_def n)
    have reach: "(page - 1) * per_page \<le> length A"
      using nA n by (simp add: n_def)
    show ?thesis
    proof (cases "page_of A page = []")
      case True
      with its have "drop n A = []" by (simp add: per_page_def)
      with nA have "length A = n" by (simp add: n_def)
      with lt have "take n A = A" "take m A = A" by simp_all
      with pre have "repos = take m A" by simp
      moreover from True have "no_items (fetch_page env page)"
        by (rule stop [OF page reach])
      ultimately show ?thesis using enter by (simp add: search_loop_no_items m_def)
    next
      case False
      then have fetch: "fetch_page env page = Inr \<lparr>items = Some (page_of A page)\<rparr>"
        by (rule served [OF page reach])
      have it: "items \<lparr>items = Some (page_of A page)\<rparr> = Some (page_of A page)"
        by simp
      have "append_items (int m) repos (page_of A page) = repos @ take (m - n) (page_of A page)"
        using lt by (simp add: append_items_take n_def)
      also have "\<dots> = take n A @ take (min (m - n) per_page) (drop n A)"
        using pre by (simp add: its)
      also have "\<dots> = take (n + min (m - n) per_page) A"
        by (simp add: take_add)
      also have "n + min (m - n) per_page = min m (n + per_page)"
        using lt by simp
      finally have repos': "append_items max_repos repos (page_of A page) = take (min m (n + per_page)) A"
        by (simp add: mx)
      show ?thesis
      proof (cases "length (page_of A page) < per_page")
        case True
        then have "length A < n + per_page" by (simp add: its)
        then have "take (min m (n + per_page)) A = take m A"
          by (cases "m \<le> n + per_page") (simp_all add: min_def)
        with enter fetch it False True repos' show ?thesis
          by (simp add: search_loop_last [OF enter fetch it False True] m_def)
      next
        case full: False
        then have enough: "n + per_page \<le> length A" by (simp add: its per_page_def)
        let ?repos' = "append_items max_repos repos (page_of A page)"
        have len: "length ?repos' = min m (n + per_page)"
          using enough by (simp add: repos')
        have "fst (search_loop env max_repos ?repos' (page + 1)
                (trace @ throttle_events env page @ [PageRequest page])) = take (nat max_repos) A"
        proof (rule less.hyps)
          show "nat max_repos - length ?repos' < nat max_repos - length repos"
            using lt len by (simp add: m_def [symmetric] n_def [symmetric] per_page_def)
          show "1 \<le> page + 1" by simp
          show "length ?repos' \<le> length A" using enough len by simp
          show "?repos' = take (length ?repos') A" using len repos' by simp
          show "length ?repos' \<le> nat max_repos" using len by (simp add: m_def)
          show "length ?repos' < nat max_repos \<longrightarrow> length ?repos' = (page + 1 - 1) * per_page"
            using len n page by (auto simp: m_def [symmetric] min_def algebra_simps)
        qed
        then show ?thesis
          by (simp add: search_loop_continue' [OF enter fetch it False full])
      qed
    qed
  qed
qed


lemma slice_to_take: "slice_to (take (nat n) xs) n = take (nat n) xs"
  by (simp add: slice_to_def)

lemma fst_search_repositories:
  "fst (search_repositories env max_repos) = slice_to (fst (search_loop env max_repos [] 1 [])) max_repos"
  by (simp add: search_repositories_def split: prod.splits)

lemma search_all_served:
  assumes "\<forall>p\<ge>1. fetch_page env p = Inr \<lparr>items = Some (page_of available p)\<rparr>"
  shows "fst (search_repositories env max_repos) = take (nat max_repos) available"
proof -
  have "fst (search_loop env max_repos [] 1 []) = take (nat max_repos) available"
  proof (rule search_loop_served)
    fix p :: nat
    assume "1 \<le> p"
    with assms show "fetch_page env p = Inr \<lparr>items = Some (page_of available p)\<rparr>" by simp
  next
    fix p :: nat
    assume "1 \<le> p" and "page_of available p = []"
    with assms have "fetch_page env p = Inr \<lparr>items = Some []\<rparr>" by simp
    then show "no_items (fetch_page env p)" by (simp add: no_items_def)
  qed simp_all
  then show ?thesis by (simp add: fst_search_repositories slice_to_take)
qed

lemma search_until_failure:
  assumes k: "1 \<le> k" and full: "(k - 1) * per_page \<le> length available"
    and before: "\<forall>p. 1 \<le> p \<and> p < k \<longrightarrow> fetch_page env p = Inr \<lparr>items = Some (page_of available p)\<rparr>"
    and fails: "fetch_page env k = Inl e"
  shows "fst (search_repositories env max_repos) = take (nat max_repos) (take ((k - 1) * per_page) available)"
proof -
  let ?A = "take ((k - 1) * per_page) available"
  have lenA: "length ?A = (k - 1) * per_page" using full by simp
  have early: "page_of ?A p = page_of available p \<and> page_of available p \<noteq> []"
    if "1 \<le> p" "p < k" for p
  proof -
    from that have le: "(p - 1) * per_page + per_page \<le> (k - 1) * per_page"
      by (simp add: per_page_def)
    then have "per_page \<le> (k - 1) * per_page - (p - 1) * per_page"
      by linarith
    then have "page_of ?A p = page_of available p"
      by (simp add: page_of_def drop_take min_absorb1)
    moreover from le full have "length (page_of available p) = per_page"
      by (simp add: page_of_def)
    then have "page_of available p \<noteq> []" by (auto simp: per_page_def)
    ultimately show ?thesis by simp
  qed
  have late: "page_of ?A p = []" if "k \<le> p" for p
  proof -
    from that have "k - 1 \<le> p - 1" by simp
    then have "(k - 1) * per_page \<le> (p - 1) * per_page" by (rule mult_le_mono1)
    with lenA have "length ?A \<le> (p - 1) * per_page" by (simp only:)
    then have "drop ((p - 1) * per_page) ?A = []" by (rule drop_all)
    then show ?thesis by (simp only: page_of_def take_Nil)
  qed
  have "fst (search_loop env max_repos [] 1 []) = take (nat max_repos) ?A"
  proof (rule search_loop_served)
    fix p :: nat
    assume p: "1 \<le> p" and "page_of ?A p \<noteq> []"
    with late [of p] have "p < k" by (cases "p < k") simp_all
    with p before early [of p] show "fetch_page env p = Inr \<lparr>items = Some (page_of ?A p)\<rparr>"
      by simp
  next
    fix p :: nat
    assume p: "1 \<le> p" and reach: "(p - 1) * per_page \<le> length ?A" and empty: "page_of ?A p = []"
    have "k \<le> p"
    proof (rule ccontr)
      assume "\<not> k \<le> p"
      then have "p < k" by simp
      from early [OF p this] empty show False by auto
    qed
    moreover from reach k p have "p \<le> k" by (auto simp add: lenA per_page_def)
    ultimately have "p = k" by simp
    with fails show "no_items (fetch_page env p)" by (simp add: no_items_def)
  qed simp_all
  then show ?thesis by (simp only: fst_search_repositories slice_to_take)
qed

text \<open>
  Claim C8. For a target count that is not negative, a search returns at most that many
  repositories. When every page request is answered from the list \<open>available\<close>, the search
  returns the first \<open>min max_repos (length available)\<close> items of the list, so the last page
  is cut to the items still needed. When the pages before page \<open>k\<close> are answered in full and
  the request for page \<open>k\<close> raises, the search returns the items of the earlier pages, cut to
  the target count, and raises nothing.
\<close>

theorem search_repositories_result:
  "(0 \<le> max_repos \<longrightarrow> int (length (fst (search_repositories env max_repos))) \<le> max_repos) \<and>
   ((\<forall>p\<ge>1. fetch_page env p = Inr \<lparr>items = Some (page_of available p)\<rparr>) \<longrightarrow>
      fst (search_repositories env max_repos) = take (nat max_repos) available) \<and>
   (1 \<le> k \<and> (k - 1) * per_page \<le> length available \<and>
    (\<forall>p. 1 \<le> p \<and> p < k \<longrightarrow> fetch_page env p = Inr \<lparr>items = Some (page_of available p)\<rparr>) \<and>
    (\<exists>e. fetch_page env k = Inl e) \<longrightarrow>
      fst (search_repositories env max_repos) =
        take (nat max_repos) (take ((k - 1) * per_page) available))"
proof -
  have bound: "0 \<le> max_repos \<longrightarrow> int (length (fst (search_repositories env max_repos))) \<le> max_repos"
    by (auto simp add: fst_search_repositories slice_to_def min_def)
  from bound search_all_served [of env available max_repos]
    search_until_failure [of k available env _ max_repos]
  show ?thesis by blast
qed

theorem search_repositories_result_witness:
  "fst (search_repositories
      \<lparr>local_zone = \<lambda>t. 0, rate_status = \<lambda>p. None, clock = \<lambda>p. 0,
       fetch_page = \<lambda>p. Inr \<lparr>items = Some (page_of [1, 2, 3 :: nat] p)\<rparr>\<rparr> 2) = [1, 2]
   \<and> fst (search_repositories
      \<lparr>local_zone = \<lambda>t. 0, rate_status = \<lambda>p. None, clock = \<lambda>p. 0,
       fetch_page = \<lambda>p. if p < 2 then Inr \<lparr>items = Some (page_of (replicate 150 (7::nat)) p)\<rparr>
                         else Inl \<lparr>err_url = ''u'', err_attempts = 3, err_cause = ''timeout''\<rparr>\<rparr> 120)
      = replicate 100 7"
proof -
  let ?e1 = "\<lparr>local_zone = \<lambda>t. 0, rate_status = \<lambda>p. None, clock = \<lambda>p. 0,
       fetch_page = \<lambda>p. Inr \<lparr>items = Some (page_of [1, 2, 3 :: nat] p)\<rparr>\<rparr>"
  let ?e2 = "\<lparr>local_zone = \<lambda>t. 0, rate_status = \<lambda>p. None, clock = \<lambda>p. 0,
       fetch_page = \<lambda>p. if p < 2 then Inr \<lparr>items = Some (page_of (replicate 150 (7::nat)) p)\<rparr>
                         else Inl \<lparr>err_url = ''u'', err_attempts = 3, err_cause = ''timeout''\<rparr>\<rparr>"
  have h1: "\<forall>p\<ge>1. fetch_page ?e1 p = Inr \<lparr>items = Some (page_of [1, 2, 3 :: nat] p)\<rparr>"
    by simp
  have h2: "(1::nat) \<le> 2 \<and> (2 - 1) * per_page \<le> length (replicate 150 (7::nat)) \<and>
      (\<forall>p. 1 \<le> p \<and> p < 2 \<longrightarrow> fetch_page ?e2 p = Inr \<lparr>items = Some (page_of (replicate 150 (7::nat)) p)\<rparr>) \<and>
      (\<exists>e. fetch_page ?e2 2 = Inl e)"
    by (simp add: per_page_def)
  from search_repositories_result [of 2 ?e1 "[1, 2, 3]" 1] h1
  have "fst (search_repositories ?e1 2) = take (nat 2) [1, 2, 3]" by blast
  moreover from search_repositories_result [of 120 ?e2 "replicate 150 7" 2] h2
  have "fst (search_repositories ?e2 120) = take (nat 120) (take ((2 - 1) * per_page) (replicate 150 7))"
    by blast
  ultimately show ?thesis by (simp add: per_page_def)
qed

subsection \<open>The path filter\<close>

text \<open>What \<^verbatim>\<open>re.search\<close> decides for the two shapes of pattern in \<open>exclude_patterns\<close>.\<close>

lemma match_here_lit: "match_here (lit l) at_start s \<longleftrightarrow> prefix l s"
proof (induction l arbitrary: at_start s)
  case Nil
  show ?case by (simp add: lit_def)
next
  case (Cons c l)
  then have ih: "\<And>b t. match_here (map Chr l) b t \<longleftrightarrow> prefix l t"
    by (simp add: lit_def)
  show ?case by (cases s) (simp_all add: lit_def ih)
qed

lemma search_from_bol: "search_from (Bol # p) False s = False"
  by (induction s) simp_all

lemma re_search_anchored: "re_search (Bol # lit l) s \<longleftrightarrow> prefix l s"
  by (cases s) (simp_all add: re_search_def search_from_bol match_here_lit)

lemma match_here_dotstar:
  "match_here (DotStar # lit l) at_start s \<longleftrightarrow>
     (\<exists>us vs. s = us @ l @ vs \<and> CHR 0x0A \<notin> set us)"
proof (induction s arbitrary: at_start)
  case Nil
  show ?case by (simp add: match_here_lit)
next
  case (Cons d s)
  have "(\<exists>us vs. d # s = us @ l @ vs \<and> CHR 0x0A \<notin> set us) \<longleftrightarrow>
      prefix l (d # s) \<or> (d \<noteq> CHR 0x0A \<and> (\<exists>us vs. s = us @ l @ vs \<and> CHR 0x0A \<notin> set us))"
    (is "?L \<longleftrightarrow> ?P \<or> ?R")
  proof
    assume ?L
    then obtain us vs where e: "d # s = us @ l @ vs" and n: "CHR 0x0A \<notin> set us" by blast
    show "?P \<or> ?R"
    proof (cases us)
      case Nil
      with e show ?thesis by (auto simp: prefix_def)
    next
      case (Cons u us')
      with e n have "d \<noteq> CHR 0x0A" "s = us' @ l @ vs" "CHR 0x0A \<notin> set us'" by auto
      then show ?thesis by blast
    qed
  next
    assume "?P \<or> ?R"
    then show ?L
    proof
      assume ?P
      then obtain vs where "d # s = [] @ l @ vs" by (auto simp: prefix_def)
      then show ?L by (metis empty_iff empty_set)
    next
      assume ?R
      then obtain us vs where "d \<noteq> CHR 0x0A" "s = us @ l @ vs" "CHR 0x0A \<notin> set us" by blast
      then have "d # s = (d # us) @ l @ vs \<and> CHR 0x0A \<notin> set (d # us)" by simp
      then show ?L by blast
    qed
  qed
  with Cons.IH show ?case by (simp add: match_here_lit)
qed

lemma search_from_dotstar: "search_from (DotStar # lit l) at_start s \<longleftrightarrow> sublist l s"
proof (induction s arbitrary: at_start)
  case Nil
  show ?case by (simp add: match_here_lit)
next
  case (Cons d s)
  have "match_here (DotStar # lit l) at_start (d # s) \<Longrightarrow> sublist l (d # s)"
    unfolding match_here_dotstar sublist_def by blast
  moreover have "prefix l (d # s) \<Longrightarrow> match_here (DotStar # lit l) at_start (d # s)"
    by (simp add: match_here_lit)
  ultimately show ?case
    using Cons.IH [of False] by (auto simp: sublist_Cons_right simp del: match_here.simps)
qed

lemma re_search_dotstar: "re_search (DotStar # lit l) s \<longleftrightarrow> sublist l s"
  by (simp add: re_search_def search_from_dotstar)

lemma excluded_iff:
  "excluded path \<longleftrightarrow>
     prefix ''env/'' path \<or> prefix ''venv/'' path \<or> sublist ''/site-packages/'' path \<or>
     sublist ''/dist-packages/'' path \<or> prefix ''tests/'' path \<or> prefix ''docs/'' path \<or>
     prefix ''.'' path"
  by (simp only: excluded_def exclude_patterns_def list_ex_Nil_iff list_ex_Cons_iff re_search_anchored
      re_search_dotstar simp_thms)


lemma segments_nonempty: "segments s \<noteq> []"
  by (induction s) (auto split: list.splits)

lemma segments_append_slash: "segments (us @ CHR ''/'' # vs) = segments us @ segments vs"
proof (induction us)
  case Nil
  show ?case by simp
next
  case (Cons c us)
  obtain seg rest where "segments us = seg # rest"
    using segments_nonempty [of us] by (cases "segments us") auto
  with Cons show ?case by simp
qed

lemma segments_no_slash: "CHR ''/'' \<notin> set s \<Longrightarrow> segments s = [s]"
  by (induction s) auto

lemma join_Cons: "ys \<noteq> [] \<Longrightarrow> join (x # ys) = x @ CHR ''/'' # join ys"
  by (cases ys) simp_all

lemma join_segments: "join (segments s) = s"
proof (induction s)
  case Nil
  show ?case by simp
next
  case (Cons c s)
  obtain seg rest where sr: "segments s = seg # rest"
    using segments_nonempty [of s] by (cases "segments s") auto
  show ?case
  proof (cases "c = CHR ''/''")
    case True
    with Cons show ?thesis by (simp add: join_Cons segments_nonempty)
  next
    case False
    with Cons sr show ?thesis by (cases rest) simp_all
  qed
qed

lemma join_append: "xs \<noteq> [] \<Longrightarrow> ys \<noteq> [] \<Longrightarrow> join (xs @ ys) = join xs @ CHR ''/'' # join ys"
proof (induction xs)
  case Nil
  then show ?case by simp
next
  case (Cons x xs)
  show ?case
  proof (cases xs)
    case Nil
    with Cons.prems show ?thesis by (simp add: join_Cons)
  next
    case (Cons a list)
    with Cons.IH Cons.prems show ?thesis by (simp add: join_Cons)
  qed
qed

lemma sublist_directory:
  assumes "CHR ''/'' \<notin> set name"
  shows "sublist (CHR ''/'' # name @ ''/'') path \<longleftrightarrow> name \<in> set (butlast (tl (segments path)))"
proof
  assume "sublist (CHR ''/'' # name @ ''/'') path"
  then obtain ps ss where "path = ps @ (CHR ''/'' # name @ ''/'') @ ss"
    by (auto simp: sublist_def)
  then have "path = ps @ CHR ''/'' # (name @ CHR ''/'' # ss)" by simp
  then have "segments path = segments ps @ [name] @ segments ss"
    by (simp add: segments_append_slash segments_no_slash assms)
  moreover obtain a as where "segments ps = a # as"
    using segments_nonempty [of ps] by (cases "segments ps") auto
  moreover obtain bs b where "segments ss = bs @ [b]"
    using segments_nonempty [of ss] by (cases "segments ss" rule: rev_cases) auto
  ultimately have "butlast (tl (segments path)) = as @ [name] @ bs"
    by (simp add: butlast_append)
  then show "name \<in> set (butlast (tl (segments path)))" by simp
next
  assume mem: "name \<in> set (butlast (tl (segments path)))"
  obtain a t where at: "segments path = a # t"
    using segments_nonempty [of path] by (cases "segments path") auto
  with mem have "name \<in> set (butlast t)" by simp
  then obtain b1 b2 where b: "butlast t = b1 @ name # b2" by (auto simp: in_set_conv_decomp)
  then have "t \<noteq> []" by auto
  then have "t = butlast t @ [last t]" by simp
  with b at have "segments path = (a # b1) @ ([name] @ (b2 @ [last t]))" by simp
  then have "join (segments path) = join (a # b1) @ CHR ''/'' # join ([name] @ (b2 @ [last t]))"
    by (simp only: join_append [of "a # b1" "[name] @ (b2 @ [last t])"] list.distinct
        append_is_Nil_conv not_Cons_self2 simp_thms)
  also have "join ([name] @ (b2 @ [last t])) = name @ CHR ''/'' # join (b2 @ [last t])"
    by (simp add: join_Cons)
  finally have "path = join (a # b1) @ (CHR ''/'' # name @ ''/'') @ join (b2 @ [last t])"
    by (simp add: join_segments)
  then show "sublist (CHR ''/'' # name @ ''/'') path"
    unfolding sublist_def by blast
qed

text \<open>
  Claim C6, as the spec states it, fails for a path whose first segment is
  \<^verbatim>\<open>site-packages\<close>: the pattern \<^verbatim>\<open>.*/site-packages/\<close> needs a slash before the name, so
  the entry survives the filter although the path has a \<^verbatim>\<open>site-packages/\<close> segment.
\<close>

theorem root_site_packages_counterexample:
  "spec_excluded ''site-packages/foo.py'' \<and>
   survives_filter \<lparr>item_type = ''blob'', item_path = ''site-packages/foo.py''\<rparr>"
proof -
  have "spec_excluded ''site-packages/foo.py''"
    by (simp add: spec_excluded_def has_directory_def)
  moreover have "\<not> excluded ''site-packages/foo.py''"
    by (simp add: excluded_def exclude_patterns_def re_search_def lit_def)
  moreover have "suffix ''.py'' ''site-packages/foo.py''"
    by (simp add: suffix_def)
  ultimately show ?thesis by (simp add: survives_filter_def)
qed

text \<open>
  Claim C6, amended. An entry survives the filter if and only if it is a blob whose path
  ends in \<^verbatim>\<open>.py\<close> and is not excluded; a path is excluded exactly when it starts with
  \<^verbatim>\<open>env/\<close>, \<^verbatim>\<open>venv/\<close>, \<^verbatim>\<open>tests/\<close> or \<^verbatim>\<open>docs/\<close>, starts with a dot, or has a directory segment
  \<^verbatim>\<open>site-packages\<close> or \<^verbatim>\<open>dist-packages\<close> that is not its first segment. The path
  \<^verbatim>\<open>tests/unit/test_x.py\<close> is excluded and \<^verbatim>\<open>app/tests_helper.py\<close> is not.
\<close>

theorem path_filter:
  "(survives_filter item \<longleftrightarrow>
      item_type item = ''blob'' \<and> suffix ''.py'' (item_path item) \<and>
      \<not> (prefix ''env/'' (item_path item) \<or> prefix ''venv/'' (item_path item) \<or>
         prefix ''tests/'' (item_path item) \<or> prefix ''docs/'' (item_path item) \<or>
         prefix ''.'' (item_path item) \<or>
         ''site-packages'' \<in> set (butlast (tl (segments (item_path item)))) \<or>
         ''dist-packages'' \<in> set (butlast (tl (segments (item_path item)))))) \<and>
   excluded ''tests/unit/test_x.py'' \<and> \<not> excluded ''app/tests_helper.py''"
proof -
  have site: "sublist ''/site-packages/'' p \<longleftrightarrow> ''site-packages'' \<in> set (butlast (tl (segments p)))" for p
    using sublist_directory [of "''site-packages''" p] by simp
  have dist: "sublist ''/dist-packages/'' p \<longleftrightarrow> ''dist-packages'' \<in> set (butlast (tl (segments p)))" for p
    using sublist_directory [of "''dist-packages''" p] by simp
  have a: "excluded ''tests/unit/test_x.py''"
    by (simp add: excluded_iff)
  have b: "\<not> excluded ''app/tests_helper.py''"
    by (simp add: excluded_iff site dist)
  have c: "survives_filter item \<longleftrightarrow>
      item_type item = ''blob'' \<and> suffix ''.py'' (item_path item) \<and>
      \<not> (prefix ''env/'' (item_path item) \<or> prefix ''venv/'' (item_path item) \<or>
         prefix ''tests/'' (item_path item) \<or> prefix ''docs/'' (item_path item) \<or>
         prefix ''.'' (item_path item) \<or>
         ''site-packages'' \<in> set (butlast (tl (segments (item_path item)))) \<or>
         ''dist-packages'' \<in> set (butlast (tl (segments (item_path item)))))"
    unfolding survives_filter_def excluded_iff site dist by blast
  from a b c show ?thesis by blast
qed

theorem path_filter_witness:
  "survives_filter \<lparr>item_type = ''blob'', item_path = ''app/tests_helper.py''\<rparr>
   \<and> \<not> survives_filter \<lparr>item_type = ''blob'', item_path = ''a/site-packages/x.py''\<rparr>"
proof -
  have s1: "suffix ''.py'' ''app/tests_helper.py''" by (simp add: suffix_def)
  have s2: "''site-packages'' \<in> set (butlast (tl (segments ''a/site-packages/x.py'')))" by simp
  from path_filter [of "\<lparr>item_type = ''blob'', item_path = ''app/tests_helper.py''\<rparr>"] s1
  have "survives_filter \<lparr>item_type = ''blob'', item_path = ''app/tests_helper.py''\<rparr>"
    by simp
  moreover from path_filter [of "\<lparr>item_type = ''blob'', item_path = ''a/site-packages/x.py''\<rparr>"] s2
  have "\<not> survives_filter \<lparr>item_type = ''blob'', item_path = ''a/site-packages/x.py''\<rparr>"
    by simp
  ultimately show ?thesis by simp
qed

subsection \<open>The walk of one repository\<close>

lemma stats_failed_fetch: "get_file_content_and_stats (Inl e) = Some ([], 0, 0)"
  by (simp add: get_file_content_and_stats_def)

lemma walk_tree_mono:
  "walk_tree env min_lines max_lines q entries acc = Inr out \<Longrightarrow> set acc \<subseteq> set out"
proof (induction entries arbitrary: acc)
  case Nil
  then show ?case by simp
next
  case (Cons item rest)
  consider (skip) "walk_tree env min_lines max_lines q rest acc = Inr out"
    | (keep) p n r where "walk_tree env min_lines max_lines q rest (acc @ [(p, n, r)]) = Inr out"
    using Cons.prems by (auto split: if_splits option.splits)
  then show ?case
  proof cases
    case skip
    from Cons.IH [OF skip] show ?thesis .
  next
    case keep
    from Cons.IH [OF keep] show ?thesis by simp
  qed
qed

lemma walk_tree_member:
  "walk_tree env min_lines max_lines q entries acc = Inr out \<Longrightarrow> item \<in> set entries \<Longrightarrow>
   survives_filter item \<Longrightarrow>
   get_file_content_and_stats (contents_response env (item_path item)) = Some (c, n, r) \<Longrightarrow>
   min_lines \<le> n \<Longrightarrow> n \<le> max_lines \<Longrightarrow> q \<le> r \<Longrightarrow>
   (item_path item, n, r) \<in> set out"
proof (induction entries arbitrary: acc)
  case Nil
  then show ?case by simp
next
  case (Cons first rest)
  show ?case
  proof (cases "item = first")
    case True
    with Cons.prems have "walk_tree env min_lines max_lines q rest (acc @ [(item_path item, n, r)]) = Inr out"
      by simp
    then have "set (acc @ [(item_path item, n, r)]) \<subseteq> set out"
      by (rule walk_tree_mono)
    then show ?thesis by simp
  next
    case False
    with Cons.prems have in_rest: "item \<in> set rest" by simp
    consider (skip) "walk_tree env min_lines max_lines q rest acc = Inr out"
      | (keep) p' n' r' where
          "walk_tree env min_lines max_lines q rest (acc @ [(p', n', r')]) = Inr out"
      using Cons.prems(1) by (auto split: if_splits option.splits)
    then show ?thesis
    proof cases
      case skip
      from Cons.IH [OF skip in_rest Cons.prems(3-7)] show ?thesis .
    next
      case keep
      from Cons.IH [OF keep in_rest Cons.prems(3-7)] show ?thesis .
    qed
  qed
qed

lemma walk_tree_total:
  "(\<forall>i \<in> set entries. survives_filter i \<longrightarrow>
      get_file_content_and_stats (contents_response env (item_path i)) \<noteq> None) \<Longrightarrow>
   \<exists>out. walk_tree env min_lines max_lines q entries acc = Inr out"
  by (induction entries arbitrary: acc) auto


lemma find_python_files_walk:
  "info_response env = Inr (RepoDict (Some branch)) \<Longrightarrow> tree_response env branch = Inr td \<Longrightarrow>
   tree td = Some entries \<Longrightarrow>
   find_python_files env min_lines max_lines q = walk_tree env min_lines max_lines q entries []"
  by (simp add: find_python_files_def)

lemma not_excluded_x_py: "\<not> excluded ''x.py''"
  by (simp add: excluded_iff sublist_Cons_right)

text \<open>
  Claim C10, as stated, fails when \<^verbatim>\<open>max_lines\<close> is negative: the line count 0 of the failed
  file is then above the upper bound, and the file is not a candidate although
  \<^verbatim>\<open>min_lines\<close> and the threshold are at most 0.
\<close>

theorem negative_max_lines_counterexample:
  "(-2::int) \<le> 0 \<and> (0::rat) \<le> 0 \<and>
   survives_filter \<lparr>item_type = ''blob'', item_path = ''x.py''\<rparr> \<and>
   find_python_files
      \<lparr>info_response = Inr (RepoDict (Some ''main'')),
       tree_response = \<lambda>b. Inr \<lparr>tree = Some [\<lparr>item_type = ''blob'', item_path = ''x.py''\<rparr>]\<rparr>,
       contents_response = \<lambda>p. Inl \<lparr>err_url = ''u'', err_attempts = 3, err_cause = ''timeout''\<rparr>\<rparr>
      (-2) (-1) 0 = Inr []"
proof -
  have sv: "survives_filter \<lparr>item_type = ''blob'', item_path = ''x.py''\<rparr>"
    by (simp add: survives_filter_def not_excluded_x_py suffix_def)
  then show ?thesis
    by (simp add: find_python_files_def stats_failed_fetch)
qed

text \<open>
  Claim C10, amended. When the contents request of a file fails, the statistics are 0
  lines and ratio 0. If \<open>min_lines \<le> 0 \<le> max_lines\<close> and the threshold is at most 0, such a
  file that survives the path filter is among the candidates of the walk, with 0 lines,
  whenever the walk returns; and the walk returns when no surviving entry has a response
  without content.
\<close>

theorem failed_fetch_still_candidate:
  "get_file_content_and_stats (Inl e) = Some ([], 0, 0) \<and>
   (info_response env = Inr (RepoDict (Some branch)) \<and> tree_response env branch = Inr td \<and>
    tree td = Some entries \<and> item \<in> set entries \<and> survives_filter item \<and>
    contents_response env (item_path item) = Inl e \<and>
    (\<forall>i \<in> set entries. survives_filter i \<longrightarrow>
        get_file_content_and_stats (contents_response env (item_path i)) \<noteq> None) \<and>
    min_lines \<le> 0 \<and> 0 \<le> max_lines \<and> q \<le> 0
    \<longrightarrow> (\<exists>out. find_python_files env min_lines max_lines q = Inr out
              \<and> (item_path item, 0, 0) \<in> set out))"
proof -
  have "\<exists>out. find_python_files env min_lines max_lines q = Inr out
          \<and> (item_path item, 0, 0) \<in> set out"
    if info: "info_response env = Inr (RepoDict (Some branch))"
      and tr: "tree_response env branch = Inr td" "tree td = Some entries"
      and item: "item \<in> set entries" "survives_filter item"
      and failed: "contents_response env (item_path item) = Inl e"
      and others: "\<forall>i \<in> set entries. survives_filter i \<longrightarrow>
        get_file_content_and_stats (contents_response env (item_path i)) \<noteq> None"
      and filters: "min_lines \<le> 0" "0 \<le> max_lines" "q \<le> 0"
  proof -
    from others obtain out where out: "walk_tree env min_lines max_lines q entries [] = Inr out"
      using walk_tree_total [of entries env min_lines max_lines q "[]"] by blast
    have "get_file_content_and_stats (contents_response env (item_path item)) = Some ([], 0, 0)"
      by (simp add: failed stats_failed_fetch)
    from walk_tree_member [OF out item this filters]
    have "(item_path item, 0, 0) \<in> set out" .
    with out find_python_files_walk [OF info tr] show ?thesis by simp
  qed
  with stats_failed_fetch [of e] show ?thesis by blast
qed

theorem failed_fetch_still_candidate_witness:
  "\<exists>out. find_python_files
      \<lparr>info_response = Inr (RepoDict (Some ''main'')),
       tree_response = \<lambda>b. Inr \<lparr>tree = Some [\<lparr>item_type = ''blob'', item_path = ''x.py''\<rparr>]\<rparr>,
       contents_response = \<lambda>p. Inl \<lparr>err_url = ''u'', err_attempts = 3, err_cause = ''timeout''\<rparr>\<rparr>
      0 100 0 = Inr out \<and> (''x.py'', 0, 0) \<in> set out"
proof -
  let ?e = "\<lparr>err_url = ''u'', err_attempts = 3, err_cause = ''timeout''\<rparr>"
  let ?item = "\<lparr>item_type = ''blob'', item_path = ''x.py''\<rparr>"
  let ?env = "\<lparr>info_response = Inr (RepoDict (Some ''main'')),
       tree_response = \<lambda>b. Inr \<lparr>tree = Some [?item]\<rparr>,
       contents_response = \<lambda>p. Inl ?e\<rparr>"
  have sv: "survives_filter ?item"
    by (simp add: survives_filter_def not_excluded_x_py suffix_def)
  have "info_response ?env = Inr (RepoDict (Some ''main'')) \<and>
    tree_response ?env ''main'' = Inr \<lparr>tree = Some [?item]\<rparr> \<and>
    tree \<lparr>tree = Some [?item]\<rparr> = Some [?item] \<and> ?item \<in> set [?item] \<and> survives_filter ?item \<and>
    contents_response ?env (item_path ?item) = Inl ?e \<and>
    (\<forall>i \<in> set [?item]. survives_filter i \<longrightarrow>
        get_file_content_and_stats (contents_response ?env (item_path i)) \<noteq> None) \<and>
    (0::int) \<le> 0 \<and> (0::int) \<le> 100 \<and> (0::rat) \<le> 0"
    using sv by (simp add: stats_failed_fetch)
  with failed_fetch_still_candidate [of ?e ?env "''main''" "\<lparr>tree = Some [?item]\<rparr>" "[?item]" ?item 0 100 0]
  have "\<exists>out. find_python_files ?env 0 100 0 = Inr out \<and> (item_path ?item, 0, 0) \<in> set out"
    by blast
  then show ?thesis by simp
qed

lemma step_raised:
  "list_all (\<lambda>w. loc w = Raised) (workers s) \<Longrightarrow> step existing i s = s"
  by (simp add: step_def Let_def list_all_length)

lemma run_raised:
  "list_all (\<lambda>w. loc w = Raised) (workers s) \<Longrightarrow> run existing schedule s = s"
  by (induction schedule) (simp_all add: run_def step_raised)

lemma not_excluded_a_py: "\<not> excluded ''a.py''"
  by (simp add: excluded_iff sublist_Cons_right)

lemma not_excluded_b_py: "\<not> excluded ''b.py''"
  by (simp add: excluded_iff sublist_Cons_right)

text \<open>
  Claim C2 at a response without the key \<^verbatim>\<open>content\<close>. The tree has \<^verbatim>\<open>a.py\<close>, one line of
  code, and \<^verbatim>\<open>b.py\<close>, whose contents response has no \<^verbatim>\<open>content\<close>. The walk raises
  \<^verbatim>\<open>TypeError\<close>; the task of the repository then merges nothing, under every schedule,
  although \<^verbatim>\<open>a.py\<close> alone is a candidate. A metadata response without
  \<^verbatim>\<open>default_branch\<close>, one that is not a dictionary and a tree response without \<^verbatim>\<open>tree\<close>
  give the empty result.
\<close>

theorem absent_content_aborts_walk:
  "find_python_files
      \<lparr>info_response = Inr (RepoDict (Some ''main'')),
       tree_response = \<lambda>b. Inr \<lparr>tree = Some [\<lparr>item_type = ''blob'', item_path = ''a.py''\<rparr>,
                                             \<lparr>item_type = ''blob'', item_path = ''b.py''\<rparr>]\<rparr>,
       contents_response = \<lambda>p. if p = ''a.py'' then Inr \<lparr>content = Some [0x78]\<rparr>
                                else Inr \<lparr>content = None\<rparr>\<rparr>
      1 100 0 = Inl TypeError \<and>
   find_python_files
      \<lparr>info_response = Inr (RepoDict (Some ''main'')),
       tree_response = \<lambda>b. Inr \<lparr>tree = Some [\<lparr>item_type = ''blob'', item_path = ''a.py''\<rparr>]\<rparr>,
       contents_response = \<lambda>p. if p = ''a.py'' then Inr \<lparr>content = Some [0x78]\<rparr>
                                else Inr \<lparr>content = None\<rparr>\<rparr>
      1 100 0 = Inr [(''a.py'', 1, 0)] \<and>
   all_results (run existing schedule (start_run [(repo, Inl TypeError)])) = [] \<and>
   find_python_files (env\<lparr>info_response := Inr (RepoDict None)\<rparr>) min_lines max_lines q = Inr [] \<and>
   find_python_files (env\<lparr>info_response := Inr NotADict\<rparr>) min_lines max_lines q = Inr [] \<and>
   find_python_files (env\<lparr>info_response := Inr (RepoDict (Some branch)),
                         tree_response := \<lambda>b. Inr \<lparr>tree = None\<rparr>\<rparr>) min_lines max_lines q = Inr []"
proof -
  have sa: "survives_filter \<lparr>item_type = ''blob'', item_path = ''a.py''\<rparr>"
    by (simp add: survives_filter_def not_excluded_a_py suffix_def)
  have sb: "survives_filter \<lparr>item_type = ''blob'', item_path = ''b.py''\<rparr>"
    by (simp add: survives_filter_def not_excluded_b_py suffix_def)
  have stats_a: "get_file_content_and_stats (Inr \<lparr>content = Some [0x78]\<rparr>) = Some ([0x78], 1, 0)"
    by (simp add: get_file_content_and_stats_def splitlines_def is_line_boundary_def Let_def
        comment_ratio_of_def code_lines_of_def comment_lines_of_def is_comment_line_def is_space_def)
  have stats_b: "get_file_content_and_stats (Inr \<lparr>content = None\<rparr>) = None"
    by (simp add: get_file_content_and_stats_def)
  have crash: "find_python_files
      \<lparr>info_response = Inr (RepoDict (Some ''main'')),
       tree_response = \<lambda>b. Inr \<lparr>tree = Some [\<lparr>item_type = ''blob'', item_path = ''a.py''\<rparr>,
                                             \<lparr>item_type = ''blob'', item_path = ''b.py''\<rparr>]\<rparr>,
       contents_response = \<lambda>p. if p = ''a.py'' then Inr \<lparr>content = Some [0x78]\<rparr>
                                else Inr \<lparr>content = None\<rparr>\<rparr>
      1 100 0 = Inl TypeError"
    by (simp add: find_python_files_def sa sb stats_a stats_b)
  have alone: "find_python_files
      \<lparr>info_response = Inr (RepoDict (Some ''main'')),
       tree_response = \<lambda>b. Inr \<lparr>tree = Some [\<lparr>item_type = ''blob'', item_path = ''a.py''\<rparr>]\<rparr>,
       contents_response = \<lambda>p. if p = ''a.py'' then Inr \<lparr>content = Some [0x78]\<rparr>
                                else Inr \<lparr>content = None\<rparr>\<rparr>
      1 100 0 = Inr [(''a.py'', 1, 0)]"
    by (simp add: find_python_files_def sa stats_a)
  have unmerged: "all_results (run existing schedule (start_run [(repo, Inl TypeError)])) = []"
    by (simp add: run_raised start_run_def start_task_def)
  have shapes:
    "find_python_files (env\<lparr>info_response := Inr (RepoDict None)\<rparr>) min_lines max_lines q = Inr []"
    "find_python_files (env\<lparr>info_response := Inr NotADict\<rparr>) min_lines max_lines q = Inr []"
    "find_python_files (env\<lparr>info_response := Inr (RepoDict (Some branch)),
                         tree_response := \<lambda>b. Inr \<lparr>tree = None\<rparr>\<rparr>) min_lines max_lines q = Inr []"
    by (simp_all add: find_python_files_def)
  from crash alone unmerged shapes show ?thesis by (simp only: simp_thms)
qed

subsection \<open>The worker pool\<close>

text \<open>What a step does, by the position of the task that takes it.\<close>

lemma step_outside: "\<not> i < length (workers s) \<Longrightarrow> step existing i s = s"
  by (simp add: step_def)

lemma step_done:
  "workers s = pre @ w # post \<Longrightarrow> loc w = Returned \<or> loc w = Raised \<Longrightarrow>
   step existing (length pre) s = s"
  by (auto simp: step_def Let_def)

lemma step_return:
  "workers s = pre @ w # post \<Longrightarrow> loc w = AtLoop \<Longrightarrow> python_files w = [] \<Longrightarrow>
   step existing (length pre) s =
     s\<lparr>workers := pre @ w\<lparr>loc := Returned\<rparr> # post,
       all_results := all_results s @ results w,
       total_skipped := total_skipped s + skipped_count w\<rparr>"
  by (simp add: step_def Let_def)

lemma step_skip:
  "workers s = pre @ w # post \<Longrightarrow> loc w = AtLoop \<Longrightarrow> python_files w = c # rest \<Longrightarrow>
   candidate_key w c \<in> existing \<Longrightarrow>
   step existing (length pre) s =
     s\<lparr>workers := pre @ w\<lparr>python_files := rest, skipped_count := skipped_count w + 1\<rparr> # post\<rparr>"
  by (cases c) (simp add: step_def Let_def candidate_key_def)

lemma step_to_lock:
  "workers s = pre @ w # post \<Longrightarrow> loc w = AtLoop \<Longrightarrow> python_files w = c # rest \<Longrightarrow>
   candidate_key w c \<notin> existing \<Longrightarrow>
   step existing (length pre) s = s\<lparr>workers := pre @ w\<lparr>loc := AtLock\<rparr> # post\<rparr>"
  by (cases c) (simp add: step_def Let_def candidate_key_def)

lemma step_emit:
  "workers s = pre @ w # post \<Longrightarrow> loc w = AtLock \<Longrightarrow> python_files w = c # rest \<Longrightarrow>
   candidate_key w c \<notin> processed_files s \<Longrightarrow>
   step existing (length pre) s =
     s\<lparr>workers := pre @ w\<lparr>python_files := rest, loc := AtLoop,
                          results := results w @
                            [\<lparr>repo_url = task_url w, python_file = fst c,
                              num_lines = fst (snd c), comment_ratio = snd (snd c)\<rparr>]\<rparr> # post,
       processed_files := insert (candidate_key w c) (processed_files s)\<rparr>"
  by (cases c) (simp add: step_def Let_def candidate_key_def)

lemma step_drop:
  "workers s = pre @ w # post \<Longrightarrow> loc w = AtLock \<Longrightarrow> python_files w = c # rest \<Longrightarrow>
   candidate_key w c \<in> processed_files s \<Longrightarrow>
   step existing (length pre) s =
     s\<lparr>workers := pre @ w\<lparr>python_files := rest, loc := AtLoop\<rparr> # post\<rparr>"
  by (cases c) (simp add: step_def Let_def candidate_key_def)

lemma step_lock_empty:
  "workers s = pre @ w # post \<Longrightarrow> loc w = AtLock \<Longrightarrow> python_files w = [] \<Longrightarrow>
   step existing (length pre) s = s"
  by (simp add: step_def Let_def)


lemma returned_subset:
  "set (concat (map results (filter returned ws))) \<subseteq> set (concat (map results ws))"
  by auto

lemma inv_skip:
  assumes "run_inv existing s" "workers s = pre @ w # post" "loc w = AtLoop"
  shows "run_inv existing
     (s\<lparr>workers := pre @ w\<lparr>python_files := rest, skipped_count := skipped_count w + 1\<rparr> # post\<rparr>)"
  using assms by (simp add: run_inv_def emitted_def worker_ok_def returned_def candidate_key_def)

lemma inv_to_lock:
  assumes "run_inv existing s" "workers s = pre @ w # post" "loc w = AtLoop"
    "python_files w = c # rest" "candidate_key w c \<notin> existing"
  shows "run_inv existing (s\<lparr>workers := pre @ w\<lparr>loc := AtLock\<rparr> # post\<rparr>)"
  using assms by (simp add: run_inv_def emitted_def worker_ok_def returned_def candidate_key_def)

lemma inv_drop:
  assumes "run_inv existing s" "workers s = pre @ w # post" "loc w = AtLock"
  shows "run_inv existing (s\<lparr>workers := pre @ w\<lparr>python_files := rest, loc := AtLoop\<rparr> # post\<rparr>)"
  using assms by (simp add: run_inv_def emitted_def worker_ok_def returned_def candidate_key_def)

lemma inv_emit:
  assumes "run_inv existing s" "workers s = pre @ w # post" "loc w = AtLock"
    "python_files w = c # rest" "candidate_key w c \<notin> processed_files s"
  shows "run_inv existing
     (s\<lparr>workers := pre @ w\<lparr>python_files := rest, loc := AtLoop,
                          results := results w @
                            [\<lparr>repo_url = task_url w, python_file = fst c,
                              num_lines = fst (snd c), comment_ratio = snd (snd c)\<rparr>]\<rparr> # post,
       processed_files := insert (candidate_key w c) (processed_files s)\<rparr>)"
proof -
  let ?r = "\<lparr>repo_url = task_url w, python_file = fst c,
             num_lines = fst (snd c), comment_ratio = snd (snd c)\<rparr>"
  have key: "record_key ?r = candidate_key w c"
    by (simp add: record_key_def candidate_key_def)
  from assms(1,2,3,4) have notin: "candidate_key w c \<notin> existing"
    by (auto simp: run_inv_def worker_ok_def)
  from assms(1,2,5) have fresh: "candidate_key w c \<notin> record_key ` set (concat (map results pre))"
      "candidate_key w c \<notin> record_key ` set (results w)"
      "candidate_key w c \<notin> record_key ` set (concat (map results post))"
    by (auto simp: run_inv_def emitted_def)
  from assms(1,2,3) notin fresh show ?thesis
    by (auto simp: run_inv_def emitted_def worker_ok_def returned_def key candidate_key_def)
qed


lemma inv_return:
  assumes inv: "run_inv existing s" and ws: "workers s = pre @ w # post" and at: "loc w = AtLoop"
    and empty: "python_files w = []"
  shows "run_inv existing
     (s\<lparr>workers := pre @ w\<lparr>loc := Returned\<rparr> # post,
        all_results := all_results s @ results w,
        total_skipped := total_skipped s + skipped_count w\<rparr>)"
proof -
  from inv ws have dist: "distinct (map record_key (concat (map results pre) @ results w
      @ concat (map results post)))"
    by (simp add: run_inv_def emitted_def)
  from inv ws at have merged: "set (all_results s) =
      set (concat (map results (filter returned pre))) \<union> set (concat (map results (filter returned post)))"
    by (simp add: run_inv_def returned_def)
  then have "set (all_results s) \<subseteq> set (concat (map results pre)) \<union> set (concat (map results post))"
    using returned_subset [of pre] returned_subset [of post] by blast
  then have "record_key ` set (all_results s) \<subseteq>
      record_key ` set (concat (map results pre)) \<union> record_key ` set (concat (map results post))"
    by blast
  moreover from dist have
      "record_key ` set (results w) \<inter> record_key ` set (concat (map results post)) = {}"
      "record_key ` set (concat (map results pre)) \<inter>
        (record_key ` set (results w) \<union> record_key ` set (concat (map results post))) = {}"
    by simp_all
  then have "record_key ` set (results w) \<inter>
      (record_key ` set (concat (map results pre)) \<union> record_key ` set (concat (map results post))) = {}"
    by blast
  ultimately have disjoint: "record_key ` set (all_results s) \<inter> record_key ` set (results w) = {}"
    by blast
  from dist have own: "distinct (map record_key (results w))" by simp
  from inv have old: "distinct (map record_key (all_results s))" by (simp add: run_inv_def)
  from old own disjoint have new: "distinct (map record_key (all_results s @ results w))"
    by simp
  from inv ws at empty merged new show ?thesis
    by (auto simp: run_inv_def emitted_def worker_ok_def returned_def)
qed

lemma step_inv: "run_inv existing s \<Longrightarrow> run_inv existing (step existing i s)"
proof (cases "i < length (workers s)")
  case False
  assume "run_inv existing s"
  with False show ?thesis by (simp add: step_outside)
next
  case True
  assume inv: "run_inv existing s"
  define pre where "pre = take i (workers s)"
  define w where "w = workers s ! i"
  define post where "post = drop (Suc i) (workers s)"
  from True have ws: "workers s = pre @ w # post" and i: "i = length pre"
    by (simp_all add: pre_def w_def post_def id_take_nth_drop [symmetric])
  show ?thesis
  proof (cases "loc w")
    case AtLoop
    show ?thesis
    proof (cases "python_files w")
      case Nil
      show ?thesis
        unfolding i step_return [OF ws AtLoop Nil] by (rule inv_return [OF inv ws AtLoop Nil])
    next
      case (Cons c rest)
      show ?thesis
      proof (cases "candidate_key w c \<in> existing")
        case True
        show ?thesis
          unfolding i step_skip [OF ws AtLoop Cons True] by (rule inv_skip [OF inv ws AtLoop])
      next
        case False
        show ?thesis
          unfolding i step_to_lock [OF ws AtLoop Cons False]
          by (rule inv_to_lock [OF inv ws AtLoop Cons False])
      qed
    qed
  next
    case AtLock
    show ?thesis
    proof (cases "python_files w")
      case Nil
      show ?thesis
        unfolding i step_lock_empty [OF ws AtLock Nil] by (rule inv)
    next
      case (Cons c rest)
      show ?thesis
      proof (cases "candidate_key w c \<in> processed_files s")
        case True
        show ?thesis
          unfolding i step_drop [OF ws AtLock Cons True] by (rule inv_drop [OF inv ws AtLock])
      next
        case False
        show ?thesis
          unfolding i step_emit [OF ws AtLock Cons False]
          by (rule inv_emit [OF inv ws AtLock Cons False])
      qed
    qed
  next
    case Returned
    then have "loc w = Returned \<or> loc w = Raised" by simp
    from step_done [OF ws this] inv show ?thesis unfolding i by simp
  next
    case Raised
    then have "loc w = Returned \<or> loc w = Raised" by simp
    from step_done [OF ws this] inv show ?thesis unfolding i by simp
  qed
qed

lemma run_inv_run: "run_inv existing s \<Longrightarrow> run_inv existing (run existing schedule s)"
  unfolding run_def by (induction schedule arbitrary: s) (simp_all add: step_inv)

lemma start_task_ok: "worker_ok existing (start_task repo walk)"
  by (simp add: worker_ok_def start_task_def split: sum.splits)

lemma start_task_no_results: "results (start_task repo walk) = []"
  by (simp add: start_task_def split: sum.splits)

lemma start_task_not_returned: "\<not> returned (start_task repo walk)"
  by (simp add: returned_def start_task_def split: sum.splits)

lemma concat_results_empty: "(\<forall>w \<in> set ws. results w = []) \<Longrightarrow> concat (map results ws) = []"
  by (induction ws) auto

lemma filter_returned_empty: "(\<forall>w \<in> set ws. \<not> returned w) \<Longrightarrow> filter returned ws = []"
  by (simp add: filter_empty_conv)

lemma run_inv_start: "run_inv existing (start_run tasks)"
proof -
  let ?ws = "workers (start_run tasks)"
  have fresh: "\<forall>w \<in> set ?ws. worker_ok existing w \<and> results w = [] \<and> \<not> returned w"
    by (auto simp: start_run_def start_task_ok start_task_no_results start_task_not_returned)
  then have c: "concat (map results ?ws) = []" and f: "filter returned ?ws = []"
    by (simp_all add: concat_results_empty filter_returned_empty)
  have init: "all_results (start_run tasks) = []" "total_skipped (start_run tasks) = 0"
      "processed_files (start_run tasks) = {}"
    by (simp_all add: start_run_def)
  from fresh show ?thesis
    unfolding run_inv_def emitted_def c f init by (simp add: list_all_iff)
qed

lemma twin_interleaved:
  "run {} [0, 1, 0, 1, 0, 1] (start_run twin_tasks) =
     \<lparr>workers =
        [\<lparr>task_url = ''https://github.com/o/r'', python_files = [], loc = Returned,
          results = [\<lparr>repo_url = ''https://github.com/o/r'', python_file = ''f.py'',
                      num_lines = 1, comment_ratio = 0\<rparr>],
          skipped_count = 0\<rparr>,
         \<lparr>task_url = ''https://github.com/o/r'', python_files = [], loc = Returned,
          results = [], skipped_count = 0\<rparr>],
      processed_files = {(''https://github.com/o/r'', ''f.py'')},
      all_results = [\<lparr>repo_url = ''https://github.com/o/r'', python_file = ''f.py'',
                      num_lines = 1, comment_ratio = 0\<rparr>],
      total_skipped = 0\<rparr>"
  by (simp add: run_def step_def start_run_def start_task_def twin_tasks_def Let_def)

lemma twin_keys:
  "candidate_keys twin_tasks =
     [(''https://github.com/o/r'', ''f.py''), (''https://github.com/o/r'', ''f.py'')]"
  by (simp add: candidate_keys_def task_keys_def twin_tasks_def)

text \<open>
  Claim C1. Under every schedule, at every moment of a run, the records produced so far
  have pairwise distinct keys \<open>(repo_url, python_file)\<close> and none of these keys is in the
  pre-existing data; the same holds for the records \<^verbatim>\<open>main\<close> has merged, which are among
  the records produced.
\<close>

theorem no_duplicate_emission:
  "distinct (map record_key (emitted (run existing schedule (start_run tasks)))) \<and>
   record_key ` set (emitted (run existing schedule (start_run tasks))) \<inter> existing = {} \<and>
   distinct (map record_key (all_results (run existing schedule (start_run tasks)))) \<and>
   record_key ` set (all_results (run existing schedule (start_run tasks))) \<inter> existing = {} \<and>
   set (all_results (run existing schedule (start_run tasks)))
     \<subseteq> set (emitted (run existing schedule (start_run tasks)))"
proof -
  let ?s = "run existing schedule (start_run tasks)"
  have inv: "run_inv existing ?s"
    by (rule run_inv_run) (rule run_inv_start)
  then have d1: "distinct (map record_key (emitted ?s))"
    and d2: "distinct (map record_key (all_results ?s))"
    by (simp_all add: run_inv_def)
  from inv have "\<forall>w \<in> set (workers ?s). \<forall>r \<in> set (results w). record_key r \<notin> existing"
    by (auto simp: run_inv_def worker_ok_def list_all_iff)
  then have e1: "record_key ` set (emitted ?s) \<inter> existing = {}"
    by (auto simp: emitted_def)
  from inv have sub: "set (all_results ?s) \<subseteq> set (emitted ?s)"
    using returned_subset [of "workers ?s"] by (simp add: run_inv_def emitted_def)
  with e1 have e2: "record_key ` set (all_results ?s) \<inter> existing = {}" by blast
  from d1 e1 d2 e2 sub show ?thesis by blast
qed


theorem no_duplicate_emission_witness:
  "distinct (map record_key (all_results (run {} [0, 1, 0, 1, 0, 1] (start_run twin_tasks)))) \<and>
   length (all_results (run {} [0, 1, 0, 1, 0, 1] (start_run twin_tasks))) = 1 \<and>
   length (candidate_keys twin_tasks) = 2"
  using no_duplicate_emission [of "{}" "[0, 1, 0, 1, 0, 1]" twin_tasks]
  unfolding twin_interleaved twin_keys by simp

subsection \<open>Records, skips and re-runs\<close>

lemma candidate_key_updates [simp]:
  "candidate_key (w\<lparr>python_files := fs\<rparr>) = candidate_key w"
  "candidate_key (w\<lparr>loc := l\<rparr>) = candidate_key w"
  "candidate_key (w\<lparr>results := rs\<rparr>) = candidate_key w"
  "candidate_key (w\<lparr>skipped_count := n\<rparr>) = candidate_key w"
  by (simp_all add: fun_eq_iff candidate_key_def)























end
